theory Spec2Isabelle
  imports Main "HOL-Library.Word" "HOL-Library.Tree"
begin

section \<open>Data model of library.c\<close>

text \<open>
  The constants of the source: \<^verbatim>\<open>HASH_TABLE_SIZE\<close>, \<^verbatim>\<open>MAX_BOOKS\<close>,
  \<^verbatim>\<open>MAX_BORROWED\<close>.
\<close>

definition HASH_TABLE_SIZE :: nat where
  "HASH_TABLE_SIZE = 101"

definition MAX_BOOKS :: nat where
  "MAX_BOOKS = 500"

definition MAX_BORROWED :: int where
  "MAX_BORROWED = 10"

text \<open>
  \<^verbatim>\<open>struct Book\<close>. Strings are C strings: the characters before the terminating NUL,
  short enough for their buffer (the input helper \<^verbatim>\<open>read_string\<close> cuts them to size).
  The \<^verbatim>\<open>next\<close> pointer is not a field: a bucket's chain is the list of its nodes, head first.
  An \<^verbatim>\<open>int\<close> is an integer; the source's counters only count upwards by one, and what
  it does once a counter leaves the range of \<^verbatim>\<open>int\<close> is undefined.
\<close>

record book =
  isbn :: string
  title :: string
  author :: string
  genre :: string
  available :: int
  borrow_count :: int

text \<open>
  \<^verbatim>\<open>struct User\<close>. The field \<^verbatim>\<open>id\<close> is called \<open>user_id\<close> here.
  \<open>borrowed_books\<close> is the array of \<^verbatim>\<open>MAX_BORROWED\<close> slots, of which the first
  \<open>borrowed_count\<close> are in use.
\<close>

record user =
  user_id :: int
  name :: string
  borrowed_books :: "string list"
  borrowed_count :: int

text \<open>
  A \<^verbatim>\<open>Book *\<close> is an address. Books live in the chains of the hash table, so a chain node
  is the address of a \<^verbatim>\<open>Book\<close> together with its contents; the title tree holds
  addresses only, as \<^verbatim>\<open>TreeNode.book\<close> does.
\<close>

type_synonym addr = nat

type_synonym chain = "(addr \<times> book) list"

text \<open>
  The global variables. \<open>hash_table s i\<close> is the chain of bucket \<open>i\<close>; only the
  buckets below \<^verbatim>\<open>HASH_TABLE_SIZE\<close> are ever used.
\<close>

record library =
  hash_table :: "nat \<Rightarrow> chain"
  user_list :: "user list"
  title_bst_root :: "addr tree"
  next_user_id :: int

definition empty_store :: library where
  "empty_store = \<lparr>hash_table = (\<lambda>_. []), user_list = [], title_bst_root = Leaf,
     next_user_id = 1001\<rparr>"

text \<open>The messages an operation prints, as the error kinds of the specification.\<close>

datatype error =
    DuplicateIsbn
  | BookNotFound
  | UserNotFound
  | BookUnavailable
  | BookBorrowed
  | HasBorrowedBooks
  | BorrowLimitReached
  | NotBorrowedByUser

section \<open>Strings and the hash function\<close>

text \<open>
  \<^verbatim>\<open>strcmp\<close> compares byte by byte as unsigned characters; only the sign of its result
  is used by the source, so the model returns the sign.
\<close>

fun strcmp :: "string \<Rightarrow> string \<Rightarrow> int" where
  "strcmp [] [] = 0"
| "strcmp [] (y # ys) = -1"
| "strcmp (x # xs) [] = 1"
| "strcmp (x # xs) (y # ys) =
     (if x = y then strcmp xs ys
      else if (of_char x :: nat) < of_char y then -1 else 1)"

text \<open>
  \<^verbatim>\<open>hash = (hash * 31) + (*isbn++)\<close> on \<^verbatim>\<open>unsigned int\<close>: 32 bits, wrapping. The
  character is a \<^verbatim>\<open>char\<close>, signed on the usual targets, so it is sign-extended.
\<close>

definition char_val :: "char \<Rightarrow> 32 word" where
  "char_val c = scast (of_char c :: 8 word)"

fun hash_loop :: "32 word \<Rightarrow> string \<Rightarrow> 32 word" where
  "hash_loop h [] = h"
| "hash_loop h (c # cs) = hash_loop (h * 31 + char_val c) cs"

definition hash_function :: "string \<Rightarrow> nat" where
  "hash_function k = unat (hash_loop 0 k mod of_nat HASH_TABLE_SIZE)"

section \<open>The hash table of books\<close>

text \<open>
  The chain walk of \<^verbatim>\<open>search_book_by_isbn\<close>, \<^verbatim>\<open>insert_book\<close> and
  \<^verbatim>\<open>remove_book\<close>: the first node whose ISBN compares equal.
\<close>

fun chain_search :: "string \<Rightarrow> chain \<Rightarrow> (addr \<times> book) option" where
  "chain_search k [] = None"
| "chain_search k (n # ns) =
     (if strcmp (isbn (snd n)) k = 0 then Some n else chain_search k ns)"

definition search_book_by_isbn :: "string \<Rightarrow> library \<Rightarrow> (addr \<times> book) option" where
  "search_book_by_isbn k s = chain_search k (hash_table s (hash_function k))"

text \<open>
  A write through the pointer that the chain walk returned: it changes the first node of
  the chain whose ISBN compares equal, and no other.
\<close>

fun chain_update :: "string \<Rightarrow> (book \<Rightarrow> book) \<Rightarrow> chain \<Rightarrow> chain" where
  "chain_update k f [] = []"
| "chain_update k f (n # ns) =
     (if strcmp (isbn (snd n)) k = 0 then (fst n, f (snd n)) # ns
      else n # chain_update k f ns)"

text \<open>Unlinking the node found by the walk of \<^verbatim>\<open>remove_book\<close>.\<close>

fun chain_unlink :: "string \<Rightarrow> chain \<Rightarrow> chain" where
  "chain_unlink k [] = []"
| "chain_unlink k (n # ns) =
     (if strcmp (isbn (snd n)) k = 0 then ns else n # chain_unlink k ns)"

text \<open>All nodes of the table, bucket by bucket, as every traversal of the source visits them.\<close>

definition all_nodes :: "library \<Rightarrow> chain" where
  "all_nodes s = concat (map (hash_table s) [0..<HASH_TABLE_SIZE])"

text \<open>
  Reading \<^verbatim>\<open>p->title\<close> for a pointer \<open>p\<close> held by the title tree. When the book at
  \<open>p\<close> has been freed the read is of freed memory; what it yields is the parameter
  \<open>stale\<close>, which every theorem below leaves arbitrary.
\<close>

definition title_at :: "(addr \<Rightarrow> string) \<Rightarrow> library \<Rightarrow> addr \<Rightarrow> string" where
  "title_at stale s p = (case map_of (all_nodes s) p of Some b \<Rightarrow> title b | None \<Rightarrow> stale p)"

section \<open>The title tree\<close>

text \<open>
  \<^verbatim>\<open>insert_into_bst\<close>: descend left when the new title is smaller, right otherwise
  (equal titles go right), and hang the new node where the walk leaves the tree.
  \<open>p\<close> is the pointer \<^verbatim>\<open>book\<close>, \<open>t\<close> its title \<^verbatim>\<open>book->title\<close>, and
  \<open>ttl\<close> reads the title behind a node's pointer.
\<close>

fun insert_into_bst ::
    "(addr \<Rightarrow> string) \<Rightarrow> addr \<Rightarrow> string \<Rightarrow> addr tree \<Rightarrow> addr tree" where
  "insert_into_bst ttl p t Leaf = Node Leaf p Leaf"
| "insert_into_bst ttl p t (Node l q r) =
     (if strcmp t (ttl q) < 0 then Node (insert_into_bst ttl p t l) q r
      else Node l q (insert_into_bst ttl p t r))"

fun search_by_title :: "(addr \<Rightarrow> string) \<Rightarrow> addr tree \<Rightarrow> string \<Rightarrow> addr option" where
  "search_by_title ttl Leaf t = None"
| "search_by_title ttl (Node l q r) t =
     (if strcmp t (ttl q) = 0 then Some q
      else if strcmp t (ttl q) < 0 then search_by_title ttl l t
      else search_by_title ttl r t)"

text \<open>
  \<^verbatim>\<open>insert_book\<close>. \<open>p\<close> is the pointer \<^verbatim>\<open>new_book\<close>, that is, whatever address
  \<^verbatim>\<open>malloc\<close> gave the caller, and \<open>b\<close> the contents the caller stored there. A duplicate
  is reported and freed; otherwise the node is put at the head of its chain and its
  address into the title tree. The result is the message printed (\<open>None\<close> for success)
  and the new state.
\<close>

definition insert_book ::
    "(addr \<Rightarrow> string) \<Rightarrow> addr \<Rightarrow> book \<Rightarrow> library \<Rightarrow> error option \<times> library" where
  "insert_book stale p b s =
     (let index = hash_function (isbn b) in
      case chain_search (isbn b) (hash_table s index) of
        Some n \<Rightarrow> (Some DuplicateIsbn, s)
      | None \<Rightarrow>
          (let s1 = s\<lparr>hash_table := (hash_table s)(index := (p, b) # hash_table s index)\<rparr>
           in (None, s1\<lparr>title_bst_root :=
                         insert_into_bst (title_at stale s1) p (title b) (title_bst_root s1)\<rparr>)))"

text \<open>
  Case 1 of \<^verbatim>\<open>book_management_menu\<close>: the new record is available and has never
  been borrowed.
\<close>

definition add_book ::
    "(addr \<Rightarrow> string) \<Rightarrow> addr \<Rightarrow> string \<Rightarrow> string \<Rightarrow> string \<Rightarrow> string \<Rightarrow> library
      \<Rightarrow> error option \<times> library" where
  "add_book stale p i t a g s =
     insert_book stale p
       \<lparr>isbn = i, title = t, author = a, genre = g, available = 1, borrow_count = 0\<rparr> s"

text \<open>
  \<^verbatim>\<open>remove_book\<close>: not found, or borrowed, or unlinked from its chain and freed. The
  title tree is not touched.
\<close>

definition remove_book :: "string \<Rightarrow> library \<Rightarrow> error option \<times> library" where
  "remove_book k s =
     (let index = hash_function k in
      case chain_search k (hash_table s index) of
        None \<Rightarrow> (Some BookNotFound, s)
      | Some n \<Rightarrow>
          if available (snd n) = 0 then (Some BookBorrowed, s)
          else (None, s\<lparr>hash_table :=
                          (hash_table s)(index := chain_unlink k (hash_table s index))\<rparr>))"

section \<open>The list of users\<close>

text \<open>
  \<^verbatim>\<open>add_user\<close>. \<^verbatim>\<open>malloc\<close> does not initialise \<open>borrowed_books\<close>; no slot at or
  beyond \<open>borrowed_count\<close> is ever read, and the model fills them with empty strings.
\<close>

definition add_user :: "string \<Rightarrow> library \<Rightarrow> library" where
  "add_user nm s =
     s\<lparr>user_list :=
         \<lparr>user_id = next_user_id s, name = nm,
          borrowed_books = replicate (nat MAX_BORROWED) [], borrowed_count = 0\<rparr> # user_list s,
       next_user_id := next_user_id s + 1\<rparr>"

fun find_user :: "int \<Rightarrow> user list \<Rightarrow> user option" where
  "find_user i [] = None"
| "find_user i (u # us) = (if user_id u = i then Some u else find_user i us)"

text \<open>A write through the pointer returned by \<^verbatim>\<open>find_user\<close>: the first user with that id.\<close>

fun user_update :: "int \<Rightarrow> (user \<Rightarrow> user) \<Rightarrow> user list \<Rightarrow> user list" where
  "user_update i f [] = []"
| "user_update i f (u # us) = (if user_id u = i then f u # us else u # user_update i f us)"

fun user_unlink :: "int \<Rightarrow> user list \<Rightarrow> user list" where
  "user_unlink i [] = []"
| "user_unlink i (u # us) = (if user_id u = i then us else u # user_unlink i us)"

definition remove_user :: "int \<Rightarrow> library \<Rightarrow> error option \<times> library" where
  "remove_user i s =
     (case find_user i (user_list s) of
        None \<Rightarrow> (Some UserNotFound, s)
      | Some u \<Rightarrow>
          if borrowed_count u > 0 then (Some HasBorrowedBooks, s)
          else (None, s\<lparr>user_list := user_unlink i (user_list s)\<rparr>))"

section \<open>Issue and return\<close>

text \<open>
  \<^verbatim>\<open>issue_book\<close>. The four checks return before anything is written. The slot written
  is \<open>borrowed_books[borrowed_count]\<close>; the limit check keeps the index below the array's
  end, and no operation makes a count negative.
\<close>

definition issue_book :: "int \<Rightarrow> string \<Rightarrow> library \<Rightarrow> error option \<times> library" where
  "issue_book i k s =
     (case find_user i (user_list s) of
        None \<Rightarrow> (Some UserNotFound, s)
      | Some u \<Rightarrow>
          (case search_book_by_isbn k s of
             None \<Rightarrow> (Some BookNotFound, s)
           | Some n \<Rightarrow>
               if available (snd n) = 0 then (Some BookUnavailable, s)
               else if borrowed_count u \<ge> MAX_BORROWED then (Some BorrowLimitReached, s)
               else
                 (None,
                  s\<lparr>user_list :=
                      user_update i
                        (\<lambda>u. u\<lparr>borrowed_books := (borrowed_books u)[nat (borrowed_count u) := k],
                               borrowed_count := borrowed_count u + 1\<rparr>)
                        (user_list s),
                    hash_table :=
                      (hash_table s)(hash_function k :=
                         chain_update k
                           (\<lambda>b. b\<lparr>available := 0, borrow_count := borrow_count b + 1\<rparr>)
                           (hash_table s (hash_function k)))\<rparr>)))"

text \<open>
  The search loop of \<^verbatim>\<open>return_book\<close>: the first index below \<open>cnt\<close> whose slot holds the
  ISBN; \<open>None\<close> is \<^verbatim>\<open>found_idx == -1\<close>.
\<close>

function find_borrowed :: "string list \<Rightarrow> nat \<Rightarrow> string \<Rightarrow> nat \<Rightarrow> nat option" where
  "find_borrowed bs cnt k i =
     (if i < cnt then (if strcmp (bs ! i) k = 0 then Some i else find_borrowed bs cnt k (Suc i))
      else None)"
  by pat_completeness auto
termination
  by (relation "measure (\<lambda>(bs, cnt, k, i). cnt - i)") auto

declare find_borrowed.simps [simp del]

text \<open>
  The shifting loop: \<^verbatim>\<open>for (i = found_idx; i < cnt - 1; i++) bs[i] = bs[i + 1]\<close>.
  It runs only when an index was found, so \<open>cnt\<close> is positive.
\<close>

function shift_left :: "string list \<Rightarrow> nat \<Rightarrow> nat \<Rightarrow> string list" where
  "shift_left bs cnt i =
     (if Suc i < cnt then shift_left (bs[i := bs ! Suc i]) cnt (Suc i) else bs)"
  by pat_completeness auto
termination
  by (relation "measure (\<lambda>(bs, cnt, i). cnt - i)") auto

declare shift_left.simps [simp del]

definition return_book :: "int \<Rightarrow> string \<Rightarrow> library \<Rightarrow> error option \<times> library" where
  "return_book i k s =
     (case find_user i (user_list s) of
        None \<Rightarrow> (Some UserNotFound, s)
      | Some u \<Rightarrow>
          (case search_book_by_isbn k s of
             None \<Rightarrow> (Some BookNotFound, s)
           | Some n \<Rightarrow>
               (case find_borrowed (borrowed_books u) (nat (borrowed_count u)) k 0 of
                  None \<Rightarrow> (Some NotBorrowedByUser, s)
                | Some found_idx \<Rightarrow>
                    (None,
                     s\<lparr>user_list :=
                         user_update i
                           (\<lambda>u. u\<lparr>borrowed_books :=
                                    shift_left (borrowed_books u) (nat (borrowed_count u)) found_idx,
                                  borrowed_count := borrowed_count u - 1\<rparr>)
                           (user_list s),
                       hash_table :=
                         (hash_table s)(hash_function k :=
                            chain_update k (\<lambda>b. b\<lparr>available := 1\<rparr>)
                              (hash_table s (hash_function k)))\<rparr>))))"

text \<open>The borrowed sequence of a user: the slots in use, in order.\<close>

definition borrowed :: "user \<Rightarrow> string list" where
  "borrowed u = take (nat (borrowed_count u)) (borrowed_books u)"

section \<open>Sequences of operations\<close>

text \<open>
  The operations of the menus that change the store. \<open>AddBook\<close> carries what the
  environment decides: the address \<^verbatim>\<open>malloc\<close> returns for the new record and what a
  read of freed memory yields.
\<close>

datatype op =
    AddBook "addr \<Rightarrow> string" addr string string string string
  | RemoveBook string
  | AddUser string
  | RemoveUser int
  | Issue int string
  | Return int string

fun exec :: "op \<Rightarrow> library \<Rightarrow> library" where
  "exec (AddBook stale p i t a g) s = snd (add_book stale p i t a g s)"
| "exec (RemoveBook k) s = snd (remove_book k s)"
| "exec (AddUser nm) s = add_user nm s"
| "exec (RemoveUser i) s = snd (remove_user i s)"
| "exec (Issue i k) s = snd (issue_book i k s)"
| "exec (Return i k) s = snd (return_book i k s)"

definition run :: "op list \<Rightarrow> library \<Rightarrow> library" where
  "run ops s = fold exec ops s"

text \<open>The users whose borrowed sequence contains an ISBN.\<close>

definition holders :: "string \<Rightarrow> library \<Rightarrow> user list" where
  "holders k s = filter (\<lambda>u. k \<in> set (borrowed u)) (user_list s)"

text \<open>How often an ISBN occurs in the borrowed sequences of all users together.\<close>

definition loans :: "string \<Rightarrow> user list \<Rightarrow> nat" where
  "loans k us = sum_list (map (\<lambda>u. count_list (borrowed u) k) us)"

text \<open>A user record whose array has its \<^verbatim>\<open>MAX_BORROWED\<close> slots and whose count is within it.\<close>

definition user_ok :: "user \<Rightarrow> bool" where
  "user_ok u \<longleftrightarrow>
     length (borrowed_books u) = nat MAX_BORROWED \<and> 0 \<le> borrowed_count u \<and>
     borrowed_count u \<le> MAX_BORROWED"

text \<open>
  The invariant of the store that the operations keep: every node sits in the bucket of
  its ISBN, no chain holds an ISBN twice, every user record is well formed, and an ISBN
  occurs in the borrowed sequences once when its book is in the table and unavailable,
  and not at all otherwise.
\<close>

definition store_inv :: "library \<Rightarrow> bool" where
  "store_inv s \<longleftrightarrow>
     (\<forall>i. \<forall>n \<in> set (hash_table s i). hash_function (isbn (snd n)) = i) \<and>
     (\<forall>i. distinct (map (\<lambda>n. isbn (snd n)) (hash_table s i))) \<and>
     (\<forall>u \<in> set (user_list s). user_ok u) \<and>
     (\<forall>k. loans k (user_list s) =
        (case search_book_by_isbn k s of
           None \<Rightarrow> 0
         | Some n \<Rightarrow> if available (snd n) = 0 then 1 else 0))"

section \<open>Reports\<close>

text \<open>
  \<^verbatim>\<open>list_most_borrowed_books\<close>. The collecting loop copies the pointers of a chain into the
  array \<open>books\<close> while the array has room for \<^verbatim>\<open>MAX_BOOKS\<close>.
\<close>

fun collect_chain :: "chain \<Rightarrow> chain \<Rightarrow> chain" where
  "collect_chain [] books = books"
| "collect_chain (n # ns) books =
     (if length books < MAX_BOOKS then collect_chain ns (books @ [n]) else books)"

definition collect_books :: "library \<Rightarrow> chain" where
  "collect_books s =
     fold (\<lambda>i books. collect_chain (hash_table s i) books) [0..<HASH_TABLE_SIZE] []"

text \<open>
  The inner loop of the exchange sort,
  \<^verbatim>\<open>for (j = 0; j < book_count - i - 1; j++)\<close>, with \<open>lim\<close> for its bound: neighbours
  are swapped when the left one has the smaller \<open>borrow_count\<close>.
\<close>

function bubble_inner :: "chain \<Rightarrow> nat \<Rightarrow> nat \<Rightarrow> chain" where
  "bubble_inner books lim j =
     (if j < lim then
        bubble_inner
          (if borrow_count (snd (books ! j)) < borrow_count (snd (books ! Suc j))
           then books[j := books ! Suc j, Suc j := books ! j] else books)
          lim (Suc j)
      else books)"
  by pat_completeness auto
termination
  by (relation "measure (\<lambda>(books, lim, j). lim - j)") auto

declare bubble_inner.simps [simp del]

text \<open>
  The outer loop, \<^verbatim>\<open>for (i = 0; i < book_count - 1; i++)\<close>. It runs only when
  \<open>book_count\<close> is positive, so the bounds are those of the source.
\<close>

function bubble_outer :: "chain \<Rightarrow> nat \<Rightarrow> nat \<Rightarrow> chain" where
  "bubble_outer books book_count i =
     (if Suc i < book_count
      then bubble_outer (bubble_inner books (book_count - i - 1) 0) book_count (Suc i)
      else books)"
  by pat_completeness auto
termination
  by (relation "measure (\<lambda>(books, book_count, i). book_count - i)") auto

declare bubble_outer.simps [simp del]

text \<open>
  The report: nothing when there are no books; otherwise the sorted array's first
  \<open>display_limit\<close> entries, of which those with a positive \<open>borrow_count\<close> are printed.
  The result is the sequence of books printed.
\<close>

definition list_most_borrowed_books :: "library \<Rightarrow> chain" where
  "list_most_borrowed_books s =
     (let books = collect_books s; book_count = length books in
      if book_count = 0 then []
      else
        (let sorted_books = bubble_outer books book_count 0;
             display_limit = (if book_count < 10 then book_count else 10)
         in filter (\<lambda>n. borrow_count (snd n) > 0) (take display_limit sorted_books)))"

section \<open>Persistence\<close>

text \<open>The buffer sizes of the source.\<close>

definition MAX_TITLE_LENGTH :: nat where
  "MAX_TITLE_LENGTH = 100"

definition MAX_AUTHOR_LENGTH :: nat where
  "MAX_AUTHOR_LENGTH = 50"

definition MAX_GENRE_LENGTH :: nat where
  "MAX_GENRE_LENGTH = 30"

definition MAX_ISBN_LENGTH :: nat where
  "MAX_ISBN_LENGTH = 20"

definition MAX_NAME_LENGTH :: nat where
  "MAX_NAME_LENGTH = 50"

definition newline :: char where
  "newline = CHR 0x0A"

definition pipe :: char where
  "pipe = CHR ''|''"

text \<open>\<^verbatim>\<open>%d\<close> of \<^verbatim>\<open>fprintf\<close>: decimal digits, with a minus sign for a negative number.\<close>

definition digit_char :: "nat \<Rightarrow> char" where
  "digit_char d = char_of (48 + d)"

function dec_nat :: "nat \<Rightarrow> string" where
  "dec_nat n = (if n < 10 then [digit_char n] else dec_nat (n div 10) @ [digit_char (n mod 10)])"
  by pat_completeness auto
termination
  by (relation "measure (\<lambda>n. n)") auto

declare dec_nat.simps [simp del]

definition print_int :: "int \<Rightarrow> string" where
  "print_int i = (if i < 0 then CHR ''-'' # dec_nat (nat (- i)) else dec_nat (nat i))"

text \<open>
  \<^verbatim>\<open>atoi\<close>: white space is skipped, a sign is read, and digits are accumulated up to the
  first character that is not a digit. The model's integers do not overflow.
\<close>

definition isspace :: "char \<Rightarrow> bool" where
  "isspace c \<longleftrightarrow> c \<in> {CHR '' '', CHR 0x09, CHR 0x0A, CHR 0x0B, CHR 0x0C, CHR 0x0D}"

definition isdigit :: "char \<Rightarrow> bool" where
  "isdigit c \<longleftrightarrow> 48 \<le> (of_char c :: nat) \<and> (of_char c :: nat) \<le> 57"

fun atoi_digits :: "int \<Rightarrow> string \<Rightarrow> int" where
  "atoi_digits acc [] = acc"
| "atoi_digits acc (c # cs) =
     (if isdigit c then atoi_digits (acc * 10 + (int (of_char c) - 48)) cs else acc)"

definition atoi :: "string \<Rightarrow> int" where
  "atoi str =
     (case dropWhile isspace str of
        [] \<Rightarrow> 0
      | c # cs \<Rightarrow>
          if c = CHR ''-'' then - atoi_digits 0 cs
          else if c = CHR ''+'' then atoi_digits 0 cs
          else atoi_digits 0 (c # cs))"

text \<open>
  \<^verbatim>\<open>strtok\<close> and \<^verbatim>\<open>strtok_r\<close> with the delimiter \<^verbatim>\<open>"|"\<close>: leading delimiters are
  skipped; at the end of the string there is no token; otherwise the token runs up to
  the next delimiter, and the scan resumes behind it. The result is the token and the
  string left to scan.
\<close>

definition strtok :: "string \<Rightarrow> (string \<times> string) option" where
  "strtok str =
     (let str1 = dropWhile (\<lambda>c. c = pipe) str in
      if str1 = [] then None
      else Some (takeWhile (\<lambda>c. c \<noteq> pipe) str1, drop 1 (dropWhile (\<lambda>c. c \<noteq> pipe) str1)))"

text \<open>
  \<^verbatim>\<open>fgets(line, sz, file)\<close>: at most \<open>sz - 1\<close> characters, up to and including the
  first newline; \<^verbatim>\<open>NULL\<close> at the end of the file. \<open>fgets_take n\<close> reads with room for
  \<open>n\<close> characters and returns the line and the rest of the file.
\<close>

fun fgets_take :: "nat \<Rightarrow> string \<Rightarrow> string \<times> string" where
  "fgets_take n [] = ([], [])"
| "fgets_take n (c # cs) =
     (if n = 0 then ([], c # cs)
      else if c = newline then ([c], cs)
      else (case fgets_take (n - 1) cs of (l, r) \<Rightarrow> (c # l, r)))"

definition fgets :: "nat \<Rightarrow> string \<Rightarrow> (string \<times> string) option" where
  "fgets sz file = (if file = [] then None else Some (fgets_take (sz - 1) file))"

text \<open>\<^verbatim>\<open>line[strcspn(line, "\n")] = '\0'\<close>.\<close>

definition chop :: "string \<Rightarrow> string" where
  "chop line = takeWhile (\<lambda>c. c \<noteq> newline) line"

text \<open>\<^verbatim>\<open>save_books_to_file\<close>: the contents written, one line per book, bucket by bucket.\<close>

definition book_line :: "book \<Rightarrow> string" where
  "book_line b =
     isbn b @ [pipe] @ title b @ [pipe] @ author b @ [pipe] @ genre b @ [pipe] @
     print_int (available b) @ [pipe] @ print_int (borrow_count b) @ [newline]"

definition save_books_to_file :: "library \<Rightarrow> string" where
  "save_books_to_file s = concat (map (\<lambda>n. book_line (snd n)) (all_nodes s))"

text \<open>
  The six \<^verbatim>\<open>strtok\<close> calls on a line of the books file; a missing token abandons the
  record. Tokens are assumed to fit their fields, as they do for a file that was saved.
\<close>

definition parse_book :: "string \<Rightarrow> book option" where
  "parse_book line =
     (case strtok line of None \<Rightarrow> None | Some (t1, r1) \<Rightarrow>
      (case strtok r1 of None \<Rightarrow> None | Some (t2, r2) \<Rightarrow>
       (case strtok r2 of None \<Rightarrow> None | Some (t3, r3) \<Rightarrow>
        (case strtok r3 of None \<Rightarrow> None | Some (t4, r4) \<Rightarrow>
         (case strtok r4 of None \<Rightarrow> None | Some (t5, r5) \<Rightarrow>
          (case strtok r5 of None \<Rightarrow> None | Some (t6, r6) \<Rightarrow>
             Some \<lparr>isbn = t1, title = t2, author = t3, genre = t4, available = atoi t5,
                   borrow_count = atoi t6\<rparr>))))))"

text \<open>
  The body of the loop of \<^verbatim>\<open>load_books_from_file\<close> for one line: the record at the
  freshly allocated address \<open>p\<close> is put at the head of its chain, without a search for
  duplicates, and into the title tree; a malformed line is skipped.
\<close>

definition load_book_line :: "(addr \<Rightarrow> string) \<Rightarrow> addr \<Rightarrow> string \<Rightarrow> library \<Rightarrow> library" where
  "load_book_line stale p line s =
     (case parse_book line of
        None \<Rightarrow> s
      | Some b \<Rightarrow>
          (let index = hash_function (isbn b);
               s1 = s\<lparr>hash_table := (hash_table s)(index := (p, b) # hash_table s index)\<rparr>
           in s1\<lparr>title_bst_root :=
                   insert_into_bst (title_at stale s1) p (title b) (title_bst_root s1)\<rparr>))"

text \<open>
  \<^verbatim>\<open>while (fgets(line, sizeof(line), file) != NULL)\<close> with \<^verbatim>\<open>char line[512]\<close>.
  \<open>alloc ln\<close> is the address \<^verbatim>\<open>malloc\<close> returns in round \<open>ln\<close> of the loop.
\<close>

function load_books_loop ::
    "(addr \<Rightarrow> string) \<Rightarrow> (nat \<Rightarrow> addr) \<Rightarrow> nat \<Rightarrow> string \<Rightarrow> library \<Rightarrow> library" where
  "load_books_loop stale alloc ln file s =
     (case fgets 512 file of
        None \<Rightarrow> s
      | Some (line, rest) \<Rightarrow>
          load_books_loop stale alloc (Suc ln) rest
            (load_book_line stale (alloc ln) (chop line) s))"
  by pat_completeness auto
termination
proof (relation "measure (\<lambda>(stale, alloc, ln, f, s). length f)", goal_cases)
  case 1
  show ?case by simp
next
  case (2 stale alloc ln f s x2 line rest)
  have le: "length r \<le> length cs" if "fgets_take m cs = (l, r)" for cs m l r
    using that
  proof (induction cs arbitrary: m l r)
    case Nil
    then show ?case by simp
  next
    case (Cons d ds)
    then show ?case by (auto split: if_splits prod.splits simp: le_SucI)
  qed
  from 2 have "f \<noteq> []" "fgets_take (Suc 510) f = (line, rest)"
    by (auto simp: fgets_def split: if_splits)
  with le have "length rest < length f"
    by (cases f) (auto split: if_splits prod.splits simp: less_Suc_eq_le)
  then show ?case by simp
qed

declare load_books_loop.simps [simp del]

text \<open>A missing file (\<open>None\<close>) leaves the store as it is.\<close>

definition load_books_from_file ::
    "(addr \<Rightarrow> string) \<Rightarrow> (nat \<Rightarrow> addr) \<Rightarrow> string option \<Rightarrow> library \<Rightarrow> library" where
  "load_books_from_file stale alloc file s =
     (case file of None \<Rightarrow> s | Some f \<Rightarrow> load_books_loop stale alloc 0 f s)"

text \<open>\<^verbatim>\<open>save_users_to_file\<close>: one line per user, in the order of the list.\<close>

definition user_line :: "user \<Rightarrow> string" where
  "user_line u =
     print_int (user_id u) @ [pipe] @ name u @ [pipe] @ print_int (borrowed_count u) @
     concat (map (\<lambda>k. pipe # k) (borrowed u)) @ [newline]"

definition save_users_to_file :: "library \<Rightarrow> string" where
  "save_users_to_file s = concat (map user_line (user_list s))"

text \<open>
  The loop that reads the borrowed ISBNs of a line: \<open>n\<close> rounds are left, \<open>i\<close> is the slot.
  When a token is missing the source frees the record and, its \<^verbatim>\<open>continue\<close> being inside
  this loop, goes on to the next round and links the freed record afterwards; the model
  keeps the slots filled so far. A slot index beyond the array is not written.
\<close>

fun read_borrowed :: "nat \<Rightarrow> nat \<Rightarrow> string \<Rightarrow> string list \<Rightarrow> string list" where
  "read_borrowed 0 i rest bs = bs"
| "read_borrowed (Suc n) i rest bs =
     (case strtok rest of
        None \<Rightarrow> read_borrowed n (Suc i) rest bs
      | Some (t, r) \<Rightarrow> read_borrowed n (Suc i) r (bs[i := t]))"

definition parse_user :: "string \<Rightarrow> user option" where
  "parse_user line =
     (case strtok line of None \<Rightarrow> None | Some (t1, r1) \<Rightarrow>
      (case strtok r1 of None \<Rightarrow> None | Some (t2, r2) \<Rightarrow>
       (case strtok r2 of None \<Rightarrow> None | Some (t3, r3) \<Rightarrow>
          Some \<lparr>user_id = atoi t1, name = t2,
                borrowed_books =
                  read_borrowed (nat (atoi t3)) 0 r3 (replicate (nat MAX_BORROWED) []),
                borrowed_count = atoi t3\<rparr>)))"

text \<open>
  The reading loop of \<^verbatim>\<open>load_users_from_file\<close> with \<^verbatim>\<open>char line[1024]\<close>: each record
  is put in front of the temporary list, and the largest id is tracked.
\<close>

function load_users_loop :: "string \<Rightarrow> user list \<Rightarrow> int \<Rightarrow> user list \<times> int" where
  "load_users_loop file temp_user_list current_max_id =
     (case fgets 1024 file of
        None \<Rightarrow> (temp_user_list, current_max_id)
      | Some (line, rest) \<Rightarrow>
          (case parse_user (chop line) of
             None \<Rightarrow> load_users_loop rest temp_user_list current_max_id
           | Some u \<Rightarrow>
               load_users_loop rest (u # temp_user_list)
                 (if user_id u > current_max_id then user_id u else current_max_id)))"
  by pat_completeness auto
termination
proof (relation "measure (\<lambda>(f, temp, m). length f)", goal_cases)
  case 1
  show ?case by simp
next
  case (2 f temp m x2 line rest)
  have le: "length r \<le> length cs" if "fgets_take m cs = (l, r)" for cs m l r
    using that
  proof (induction cs arbitrary: m l r)
    case Nil
    then show ?case by simp
  next
    case (Cons d ds)
    then show ?case by (auto split: if_splits prod.splits simp: le_SucI)
  qed
  from 2 have "f \<noteq> []" "fgets_take (Suc 1022) f = (line, rest)"
    by (auto simp: fgets_def split: if_splits)
  with le have "length rest < length f"
    by (cases f) (auto split: if_splits prod.splits simp: less_Suc_eq_le)
  then show ?case by simp
next
  case (3 f temp m x2 line rest u)
  have le: "length r \<le> length cs" if "fgets_take m cs = (l, r)" for cs m l r
    using that
  proof (induction cs arbitrary: m l r)
    case Nil
    then show ?case by simp
  next
    case (Cons d ds)
    then show ?case by (auto split: if_splits prod.splits simp: le_SucI)
  qed
  from 3 have "f \<noteq> []" "fgets_take (Suc 1022) f = (line, rest)"
    by (auto simp: fgets_def split: if_splits)
  with le have "length rest < length f"
    by (cases f) (auto split: if_splits prod.splits simp: less_Suc_eq_le)
  then show ?case by simp
qed

declare load_users_loop.simps [simp del]

text \<open>The final loop, which moves the temporary list node by node to the front of the user list \<open>ul\<close>.\<close>

fun move_users :: "user list \<Rightarrow> user list \<Rightarrow> user list" where
  "move_users [] ul = ul"
| "move_users (node_to_move # current_temp) ul = move_users current_temp (node_to_move # ul)"

definition load_users_from_file :: "string option \<Rightarrow> library \<Rightarrow> library" where
  "load_users_from_file file s =
     (case file of
        None \<Rightarrow> s
      | Some f \<Rightarrow>
          (case load_users_loop f [] 1000 of
             (temp_user_list, current_max_id) \<Rightarrow>
               s\<lparr>next_user_id := current_max_id + 1,
                 user_list := move_users temp_user_list []\<rparr>))"

text \<open>
  A store that the persistence format can carry: every string is non-empty, fits its
  buffer and holds neither the delimiter nor a newline, and every number is a C \<^verbatim>\<open>int\<close>.
\<close>

definition field_ok :: "nat \<Rightarrow> string \<Rightarrow> bool" where
  "field_ok sz f \<longleftrightarrow> f \<noteq> [] \<and> length f < sz \<and> pipe \<notin> set f \<and> newline \<notin> set f"

definition c_int :: "int \<Rightarrow> bool" where
  "c_int i \<longleftrightarrow> - (2 ^ 31) \<le> i \<and> i < 2 ^ 31"

definition book_ok :: "book \<Rightarrow> bool" where
  "book_ok b \<longleftrightarrow>
     field_ok MAX_ISBN_LENGTH (isbn b) \<and> field_ok MAX_TITLE_LENGTH (title b) \<and>
     field_ok MAX_AUTHOR_LENGTH (author b) \<and> field_ok MAX_GENRE_LENGTH (genre b) \<and>
     c_int (available b) \<and> c_int (borrow_count b)"

definition saved_user_ok :: "user \<Rightarrow> bool" where
  "saved_user_ok u \<longleftrightarrow>
     user_ok u \<and> c_int (user_id u) \<and> field_ok MAX_NAME_LENGTH (name u) \<and>
     list_all (field_ok MAX_ISBN_LENGTH) (borrowed u)"

definition store_ok :: "library \<Rightarrow> bool" where
  "store_ok s \<longleftrightarrow>
     list_all (\<lambda>n. book_ok (snd n)) (all_nodes s) \<and> list_all saved_user_ok (user_list s)"

text \<open>The tuple of a user that the users file carries.\<close>

definition user_tuple :: "user \<Rightarrow> int \<times> string \<times> string list" where
  "user_tuple u = (user_id u, name u, borrowed u)"

text \<open>
  Ids are handed out in increasing order: along the list they decrease, and all of them
  are below the next id.
\<close>

definition ids_inv :: "library \<Rightarrow> bool" where
  "ids_inv s \<longleftrightarrow>
     sorted_wrt (\<lambda>a b. a > b) (map user_id (user_list s)) \<and>
     list_all (\<lambda>u. user_id u < next_user_id s) (user_list s)"

text \<open>
  A run used for the concrete instances of the circulation claims: twelve books, two
  users, ten loans to the first user and one to the second.
\<close>

definition demo_ops :: "op list" where
  "demo_ops =
     [AddBook (\<lambda>_. []) 0 ''b0'' ''T0'' ''A'' ''G'', AddBook (\<lambda>_. []) 1 ''b1'' ''T1'' ''A'' ''G'',
      AddBook (\<lambda>_. []) 2 ''b2'' ''T2'' ''A'' ''G'', AddBook (\<lambda>_. []) 3 ''b3'' ''T3'' ''A'' ''G'',
      AddBook (\<lambda>_. []) 4 ''b4'' ''T4'' ''A'' ''G'', AddBook (\<lambda>_. []) 5 ''b5'' ''T5'' ''A'' ''G'',
      AddBook (\<lambda>_. []) 6 ''b6'' ''T6'' ''A'' ''G'', AddBook (\<lambda>_. []) 7 ''b7'' ''T7'' ''A'' ''G'',
      AddBook (\<lambda>_. []) 8 ''b8'' ''T8'' ''A'' ''G'', AddBook (\<lambda>_. []) 9 ''b9'' ''T9'' ''A'' ''G'',
      AddBook (\<lambda>_. []) 10 ''c0'' ''U0'' ''A'' ''G'', AddBook (\<lambda>_. []) 11 ''c1'' ''U1'' ''A'' ''G'',
      AddUser ''ann'', AddUser ''bob'',
      Issue 1001 ''b0'', Issue 1001 ''b1'', Issue 1001 ''b2'', Issue 1001 ''b3'',
      Issue 1001 ''b4'', Issue 1001 ''b5'', Issue 1001 ''b6'', Issue 1001 ''b7'',
      Issue 1001 ''b8'', Issue 1001 ''b9'', Issue 1002 ''c0'']"

definition demo_store :: library where
  "demo_store = run demo_ops empty_store"

text \<open>Runs used for the concrete instances of the report and of persistence.\<close>

definition report_store :: library where
  "report_store =
     run [AddBook (\<lambda>_. []) 0 ''x'' ''X'' ''A'' ''G'', AddBook (\<lambda>_. []) 1 ''y'' ''Y'' ''A'' ''G'',
          AddBook (\<lambda>_. []) 2 ''z'' ''Z'' ''A'' ''G'', AddUser ''ann'',
          Issue 1001 ''z'', Issue 1001 ''y'', Return 1001 ''y'', Issue 1001 ''y'']
       empty_store"

definition persist_store :: library where
  "persist_store =
     run [AddBook (\<lambda>_. []) 0 ''111'' ''Go'' ''A'' ''Tech'',
          AddBook (\<lambda>_. []) 1 ''222'' ''C'' ''B'' ''Tech'',
          AddUser ''ann'', AddUser ''bob'', Issue 1001 ''222'']
       empty_store"

definition pipe_store :: library where
  "pipe_store = run [AddBook (\<lambda>_. []) 0 ''111'' ''A|B'' ''X'' ''Tech''] empty_store"

section \<open>Properties\<close>

lemma strcmp_eq [simp]: "strcmp a b = 0 \<longleftrightarrow> a = b"
  by (induction a b rule: strcmp.induct) auto

lemma hash_function_less: "hash_function k < HASH_TABLE_SIZE"
  unfolding hash_function_def HASH_TABLE_SIZE_def by (simp add: unat_mod)

subsection \<open>Chains\<close>

lemma chain_search_Some_isbn: "chain_search k ns = Some n \<Longrightarrow> isbn (snd n) = k \<and> n \<in> set ns"
  by (induction ns) (auto split: if_splits)

lemma chain_search_None_iff: "chain_search k ns = None \<longleftrightarrow> k \<notin> (\<lambda>n. isbn (snd n)) ` set ns"
  by (induction ns) auto

lemma chain_search_split:
  "chain_search k ns = Some n \<Longrightarrow>
     \<exists>ns1 ns2. ns = ns1 @ n # ns2 \<and> chain_update k f ns = ns1 @ (fst n, f (snd n)) # ns2"
proof (induction ns)
  case Nil
  then show ?case by simp
next
  case (Cons m ns)
  show ?case
  proof (cases "isbn (snd m) = k")
    case True
    with Cons.prems have "m = n" by simp
    with True have "m # ns = [] @ n # ns \<and> chain_update k f (m # ns) = [] @ (fst n, f (snd n)) # ns"
      by simp
    then show ?thesis by blast
  next
    case False
    with Cons.prems have "chain_search k ns = Some n" by simp
    from Cons.IH [OF this] obtain ns1 ns2
      where "ns = ns1 @ n # ns2" "chain_update k f ns = ns1 @ (fst n, f (snd n)) # ns2" by blast
    with False have "m # ns = (m # ns1) @ n # ns2 \<and>
        chain_update k f (m # ns) = (m # ns1) @ (fst n, f (snd n)) # ns2" by simp
    then show ?thesis by blast
  qed
qed

lemma chain_search_update:
  "(\<And>b. isbn (f b) = isbn b) \<Longrightarrow>
   chain_search k' (chain_update k f ns) =
     (if k' = k then map_option (\<lambda>n. (fst n, f (snd n))) (chain_search k ns)
      else chain_search k' ns)"
  by (induction ns) auto

lemma chain_update_isbns:
  "(\<And>b. isbn (f b) = isbn b) \<Longrightarrow>
   map (\<lambda>n. isbn (snd n)) (chain_update k f ns) = map (\<lambda>n. isbn (snd n)) ns"
  by (induction ns) auto

lemma chain_unlink_subset: "set (chain_unlink k ns) \<subseteq> set ns"
  by (induction ns) auto

lemma chain_unlink_isbns:
  "(\<lambda>n. isbn (snd n)) ` set (chain_unlink k ns) \<subseteq> (\<lambda>n. isbn (snd n)) ` set ns"
  using chain_unlink_subset by blast

lemma chain_unlink_distinct:
  "distinct (map (\<lambda>n. isbn (snd n)) ns) \<Longrightarrow> distinct (map (\<lambda>n. isbn (snd n)) (chain_unlink k ns))"
proof (induction ns)
  case Nil
  then show ?case by simp
next
  case (Cons n ns)
  from chain_unlink_isbns [of k ns] Cons.prems
  have "isbn (snd n) \<notin> (\<lambda>n. isbn (snd n)) ` set (chain_unlink k ns)" by auto
  with Cons show ?case by simp
qed

lemma chain_search_unlink:
  "distinct (map (\<lambda>n. isbn (snd n)) ns) \<Longrightarrow>
   chain_search k' (chain_unlink k ns) = (if k' = k then None else chain_search k' ns)"
proof (induction ns)
  case Nil
  then show ?case by simp
next
  case (Cons n ns)
  show ?case
  proof (cases "isbn (snd n) = k")
    case True
    with Cons.prems have "chain_search k ns = None"
      by (simp add: chain_search_None_iff)
    with True show ?thesis by auto
  next
    case False
    from Cons.prems have "distinct (map (\<lambda>n. isbn (snd n)) ns)" by simp
    from Cons.IH [OF this] False show ?thesis by auto
  qed
qed

subsection \<open>Users\<close>

lemma find_user_Some: "find_user i us = Some u \<Longrightarrow> user_id u = i \<and> u \<in> set us"
  by (induction us) (auto split: if_splits)

lemma find_user_split:
  "find_user i us = Some u \<Longrightarrow>
     \<exists>us1 us2. us = us1 @ u # us2 \<and> user_update i f us = us1 @ f u # us2"
proof (induction us)
  case Nil
  then show ?case by simp
next
  case (Cons v us)
  show ?case
  proof (cases "user_id v = i")
    case True
    with Cons.prems have "v # us = [] @ u # us \<and> user_update i f (v # us) = [] @ f u # us"
      by simp
    then show ?thesis by blast
  next
    case False
    with Cons.prems have "find_user i us = Some u" by simp
    from Cons.IH [OF this] obtain us1 us2
      where "us = us1 @ u # us2" "user_update i f us = us1 @ f u # us2" by blast
    with False have "v # us = (v # us1) @ u # us2 \<and>
        user_update i f (v # us) = (v # us1) @ f u # us2" by simp
    then show ?thesis by blast
  qed
qed

lemma find_user_update:
  "(\<And>u. user_id (f u) = user_id u) \<Longrightarrow>
   find_user j (user_update i f us) =
     (if j = i then map_option f (find_user i us) else find_user j us)"
  by (induction us) auto


subsection \<open>The loops of return_book\<close>

lemma find_borrowed_Some:
  "find_borrowed bs cnt k i = Some j \<Longrightarrow>
     i \<le> j \<and> j < cnt \<and> bs ! j = k \<and> (\<forall>l. i \<le> l \<and> l < j \<longrightarrow> bs ! l \<noteq> k)"
proof (induction bs cnt k i rule: find_borrowed.induct)
  case (1 bs cnt k i)
  show ?case
  proof (cases "i < cnt \<and> bs ! i \<noteq> k")
    case True
    with "1.prems" have "find_borrowed bs cnt k (Suc i) = Some j"
      by (simp add: find_borrowed.simps [of bs cnt k i])
    with "1.IH" True have "Suc i \<le> j \<and> j < cnt \<and> bs ! j = k \<and>
        (\<forall>l. Suc i \<le> l \<and> l < j \<longrightarrow> bs ! l \<noteq> k)" by simp
    with True show ?thesis
      by (metis Suc_leD le_neq_implies_less Suc_leI)
  next
    case False
    with "1.prems" show ?thesis
      by (auto simp: find_borrowed.simps [of bs cnt k i] split: if_splits)
  qed
qed

lemma find_borrowed_None:
  "find_borrowed bs cnt k i = None \<Longrightarrow> \<forall>l. i \<le> l \<and> l < cnt \<longrightarrow> bs ! l \<noteq> k"
proof (induction bs cnt k i rule: find_borrowed.induct)
  case (1 bs cnt k i)
  show ?case
  proof (cases "i < cnt")
    case True
    with "1.prems" have ne: "bs ! i \<noteq> k" and rest: "find_borrowed bs cnt k (Suc i) = None"
      by (auto simp: find_borrowed.simps [of bs cnt k i] split: if_splits)
    with "1.IH" True have "\<forall>l. Suc i \<le> l \<and> l < cnt \<longrightarrow> bs ! l \<noteq> k" by simp
    with ne show ?thesis
      by (metis Suc_leI le_neq_implies_less)
  next
    case False
    then show ?thesis by auto
  qed
qed

lemma find_borrowed_None_set:
  assumes "cnt \<le> length bs" and "find_borrowed bs cnt k 0 = None"
  shows "k \<notin> set (take cnt bs)"
proof
  assume "k \<in> set (take cnt bs)"
  then obtain l where "l < length (take cnt bs)" "take cnt bs ! l = k"
    by (auto simp: in_set_conv_nth)
  with assms(1) have "l < cnt" "bs ! l = k" by simp_all
  with find_borrowed_None [OF assms(2)] show False by simp
qed

lemma find_borrowed_Some_split:
  assumes "cnt \<le> length bs" and "find_borrowed bs cnt k 0 = Some j"
  shows "j < cnt \<and> take cnt bs = take j bs @ k # drop (Suc j) (take cnt bs) \<and>
         k \<notin> set (take j bs)"
proof -
  from find_borrowed_Some [OF assms(2)]
  have j: "j < cnt" and bj: "bs ! j = k" and before: "\<forall>l. l < j \<longrightarrow> bs ! l \<noteq> k" by simp_all
  from j assms(1) have "j < length (take cnt bs)" by simp
  then have "take cnt bs = take j (take cnt bs) @ (take cnt bs ! j) # drop (Suc j) (take cnt bs)"
    by (rule id_take_nth_drop)
  with j bj have split: "take cnt bs = take j bs @ k # drop (Suc j) (take cnt bs)"
    by (simp add: min_def)
  have "k \<notin> set (take j bs)"
  proof
    assume "k \<in> set (take j bs)"
    then obtain l where "l < length (take j bs)" "take j bs ! l = k"
      by (auto simp: in_set_conv_nth)
    then have "l < j" "bs ! l = k" by simp_all
    with before show False by simp
  qed
  with j split show ?thesis by simp
qed

lemma shift_left_length [simp]: "length (shift_left bs cnt i) = length bs"
  by (induction bs cnt i rule: shift_left.induct) (simp add: shift_left.simps)

lemma shift_left_take:
  "cnt \<le> length bs \<Longrightarrow> i < cnt \<Longrightarrow>
     take (cnt - 1) (shift_left bs cnt i) = take i bs @ drop (Suc i) (take cnt bs)"
proof (induction bs cnt i rule: shift_left.induct)
  case (1 bs cnt i)
  show ?case
  proof (cases "Suc i < cnt")
    case True
    let ?bs = "bs[i := bs ! Suc i]"
    from "1.prems" True have len: "cnt \<le> length ?bs" by simp
    from "1.IH" [OF True len True]
    have "take (cnt - 1) (shift_left ?bs cnt (Suc i)) =
            take (Suc i) ?bs @ drop (Suc (Suc i)) (take cnt ?bs)" .
    moreover from "1.prems" True have "take (Suc i) ?bs = take i bs @ [bs ! Suc i]"
      by (simp add: take_Suc_conv_app_nth)
    moreover have "drop (Suc (Suc i)) (take cnt ?bs) = drop (Suc (Suc i)) (take cnt bs)"
      by (simp add: take_update_swap drop_update_cancel del: drop_Suc)
    moreover from "1.prems" True
    have "drop (Suc i) (take cnt bs) = bs ! Suc i # drop (Suc (Suc i)) (take cnt bs)"
      using Cons_nth_drop_Suc [of "Suc i" "take cnt bs"] by simp
    ultimately show ?thesis
      using True by (simp add: shift_left.simps [of bs cnt i])
  next
    case False
    with "1.prems" have "cnt = Suc i" by simp
    moreover from False have "shift_left bs cnt i = bs"
      by (simp add: shift_left.simps [of bs cnt i])
    ultimately show ?thesis
      using "1.prems" by simp
  qed
qed

subsection \<open>Borrowed sequences\<close>

lemma borrowed_issue:
  assumes "user_ok u" and "borrowed_count u < MAX_BORROWED"
  shows "borrowed (u\<lparr>borrowed_books := (borrowed_books u)[nat (borrowed_count u) := k],
                     borrowed_count := borrowed_count u + 1\<rparr>) = borrowed u @ [k]"
proof -
  from assms have n: "nat (borrowed_count u) < length (borrowed_books u)"
    and c: "nat (borrowed_count u + 1) = Suc (nat (borrowed_count u))"
    by (auto simp: user_ok_def)
  from n show ?thesis
    by (simp add: borrowed_def c take_Suc_conv_app_nth)
qed

lemma borrowed_return:
  assumes ok: "user_ok u"
    and f: "find_borrowed (borrowed_books u) (nat (borrowed_count u)) k 0 = Some j"
  shows "\<exists>xs ys. borrowed u = xs @ k # ys \<and> k \<notin> set xs \<and>
           borrowed (u\<lparr>borrowed_books := shift_left (borrowed_books u) (nat (borrowed_count u)) j,
                      borrowed_count := borrowed_count u - 1\<rparr>) = xs @ ys"
proof -
  let ?bs = "borrowed_books u" and ?n = "nat (borrowed_count u)"
  from ok have len: "?n \<le> length ?bs" by (auto simp: user_ok_def)
  from find_borrowed_Some_split [OF len f]
  have j: "j < ?n" and split: "take ?n ?bs = take j ?bs @ k # drop (Suc j) (take ?n ?bs)"
    and before: "k \<notin> set (take j ?bs)" by simp_all
  from j have c: "nat (borrowed_count u - 1) = ?n - 1" by simp
  from shift_left_take [OF len j]
  have "borrowed (u\<lparr>borrowed_books := shift_left ?bs ?n j,
                      borrowed_count := borrowed_count u - 1\<rparr>) =
          take j ?bs @ drop (Suc j) (take ?n ?bs)"
    by (simp add: borrowed_def c)
  with split before show ?thesis
    unfolding borrowed_def by blast
qed

lemma user_ok_issue:
  "user_ok u \<Longrightarrow> borrowed_count u < MAX_BORROWED \<Longrightarrow>
   user_ok (u\<lparr>borrowed_books := (borrowed_books u)[nat (borrowed_count u) := k],
              borrowed_count := borrowed_count u + 1\<rparr>)"
  by (simp add: user_ok_def)

lemma user_ok_return:
  "user_ok u \<Longrightarrow> find_borrowed (borrowed_books u) (nat (borrowed_count u)) k 0 = Some j \<Longrightarrow>
   user_ok (u\<lparr>borrowed_books := shift_left (borrowed_books u) (nat (borrowed_count u)) j,
              borrowed_count := borrowed_count u - 1\<rparr>)"
  using find_borrowed_Some [of "borrowed_books u" "nat (borrowed_count u)" k 0 j]
  by (auto simp: user_ok_def)


subsection \<open>Loans\<close>

lemma loans_Nil [simp]: "loans k [] = 0"
  by (simp add: loans_def)

lemma loans_Cons [simp]: "loans k (u # us) = count_list (borrowed u) k + loans k us"
  by (simp add: loans_def)

lemma loans_append [simp]: "loans k (us @ vs) = loans k us + loans k vs"
  by (simp add: loans_def)

lemma loans_update:
  assumes "find_user i us = Some u"
  shows "loans k (user_update i f us) + count_list (borrowed u) k =
         loans k us + count_list (borrowed (f u)) k"
proof -
  from find_user_split [OF assms, of f] obtain us1 us2
    where "us = us1 @ u # us2" "user_update i f us = us1 @ f u # us2" by blast
  then show ?thesis by simp
qed

lemma loans_unlink:
  assumes "find_user i us = Some u" and "borrowed u = []"
  shows "loans k (user_unlink i us) = loans k us"
  using assms by (induction us) (auto split: if_splits)

lemma user_update_ok:
  assumes "find_user i us = Some u" and "user_ok (f u)" and "\<forall>v \<in> set us. user_ok v"
  shows "\<forall>v \<in> set (user_update i f us). user_ok v"
proof -
  from find_user_split [OF assms(1), of f] obtain us1 us2
    where "us = us1 @ u # us2" "user_update i f us = us1 @ f u # us2" by blast
  with assms(2,3) show ?thesis by auto
qed

lemma user_unlink_subset: "set (user_unlink i us) \<subseteq> set us"
  by (induction us) auto

lemma loans_ge:
  "u \<in> set us \<Longrightarrow> count_list (borrowed u) k \<le> loans k us"
  by (induction us) auto

subsection \<open>The invariant\<close>

lemma store_inv_bucket:
  "store_inv s \<Longrightarrow> n \<in> set (hash_table s i) \<Longrightarrow> hash_function (isbn (snd n)) = i"
  by (simp add: store_inv_def)

lemma store_inv_distinct:
  "store_inv s \<Longrightarrow> distinct (map (\<lambda>n. isbn (snd n)) (hash_table s i))"
  by (simp add: store_inv_def)

lemma store_inv_user: "store_inv s \<Longrightarrow> u \<in> set (user_list s) \<Longrightarrow> user_ok u"
  by (simp add: store_inv_def)

lemma store_inv_loans:
  "store_inv s \<Longrightarrow>
     loans k (user_list s) =
       (case search_book_by_isbn k s of None \<Rightarrow> 0
        | Some n \<Rightarrow> if available (snd n) = 0 then 1 else 0)"
  by (simp add: store_inv_def)

lemma store_invI:
  assumes "\<And>i n. n \<in> set (hash_table s i) \<Longrightarrow> hash_function (isbn (snd n)) = i"
    and "\<And>i. distinct (map (\<lambda>n. isbn (snd n)) (hash_table s i))"
    and "\<And>u. u \<in> set (user_list s) \<Longrightarrow> user_ok u"
    and "\<And>k. loans k (user_list s) =
           (case search_book_by_isbn k s of None \<Rightarrow> 0
            | Some n \<Rightarrow> if available (snd n) = 0 then 1 else 0)"
  shows "store_inv s"
  using assms by (simp add: store_inv_def)

lemma store_inv_empty: "store_inv empty_store"
  by (simp add: store_inv_def empty_store_def search_book_by_isbn_def)

lemma store_inv_insert_book:
  assumes inv: "store_inv s" and av: "available b \<noteq> 0"
  shows "store_inv (snd (insert_book stale p b s))"
proof (cases "chain_search (isbn b) (hash_table s (hash_function (isbn b)))")
  case (Some n)
  with inv show ?thesis by (simp add: insert_book_def)
next
  case None
  let ?h = "hash_function (isbn b)"
  let ?s1 = "s\<lparr>hash_table := (hash_table s)(?h := (p, b) # hash_table s ?h)\<rparr>"
  let ?s' = "?s1\<lparr>title_bst_root :=
               insert_into_bst (title_at stale ?s1) p (title b) (title_bst_root ?s1)\<rparr>"
  from None have s': "snd (insert_book stale p b s) = ?s'"
    by (simp add: insert_book_def Let_def)
  have "store_inv ?s'"
  proof (rule store_invI)
    fix i n assume "n \<in> set (hash_table ?s' i)"
    with store_inv_bucket [OF inv, of n i] show "hash_function (isbn (snd n)) = i"
      by (simp split: if_splits) auto
  next
    fix i
    from None have "isbn b \<notin> (\<lambda>n. isbn (snd n)) ` set (hash_table s ?h)"
      by (simp add: chain_search_None_iff)
    with store_inv_distinct [OF inv]
    show "distinct (map (\<lambda>n. isbn (snd n)) (hash_table ?s' i))" by simp
  next
    fix u assume "u \<in> set (user_list ?s')"
    with store_inv_user [OF inv] show "user_ok u" by simp
  next
    fix k
    show "loans k (user_list ?s') =
           (case search_book_by_isbn k ?s' of None \<Rightarrow> 0
            | Some n \<Rightarrow> if available (snd n) = 0 then 1 else 0)"
    proof (cases "k = isbn b")
      case True
      with None have "search_book_by_isbn k s = None"
        by (simp add: search_book_by_isbn_def)
      with store_inv_loans [OF inv, of k] have "loans k (user_list s) = 0" by simp
      with True av show ?thesis by (simp add: search_book_by_isbn_def)
    next
      case False
      then have "search_book_by_isbn k ?s' = search_book_by_isbn k s"
        by (simp add: search_book_by_isbn_def)
      with store_inv_loans [OF inv, of k] show ?thesis by simp
    qed
  qed
  with s' show ?thesis by simp
qed

lemma store_inv_remove_book:
  assumes inv: "store_inv s"
  shows "store_inv (snd (remove_book k s))"
proof (cases "chain_search k (hash_table s (hash_function k))")
  case None
  with inv show ?thesis by (simp add: remove_book_def)
next
  case (Some n)
  show ?thesis
  proof (cases "available (snd n) = 0")
    case True
    with Some inv show ?thesis by (simp add: remove_book_def)
  next
    case False
    let ?h = "hash_function k"
    let ?s' = "s\<lparr>hash_table := (hash_table s)(?h := chain_unlink k (hash_table s ?h))\<rparr>"
    from Some False have s': "snd (remove_book k s) = ?s'"
      by (simp add: remove_book_def Let_def)
    have "store_inv ?s'"
    proof (rule store_invI)
      fix i n assume "n \<in> set (hash_table ?s' i)"
      with chain_unlink_subset [of k "hash_table s ?h"] have "n \<in> set (hash_table s i)"
        by (auto split: if_splits)
      with store_inv_bucket [OF inv] show "hash_function (isbn (snd n)) = i" by simp
    next
      fix i
      from store_inv_distinct [OF inv] chain_unlink_distinct
      show "distinct (map (\<lambda>n. isbn (snd n)) (hash_table ?s' i))" by simp
    next
      fix u assume "u \<in> set (user_list ?s')"
      with store_inv_user [OF inv] show "user_ok u" by simp
    next
      fix k'
      show "loans k' (user_list ?s') =
             (case search_book_by_isbn k' ?s' of None \<Rightarrow> 0
              | Some n \<Rightarrow> if available (snd n) = 0 then 1 else 0)"
      proof (cases "k' = k")
        case True
        from Some False store_inv_loans [OF inv, of k] have "loans k (user_list s) = 0"
          by (simp add: search_book_by_isbn_def)
        with True store_inv_distinct [OF inv, of ?h] show ?thesis
          by (simp add: search_book_by_isbn_def chain_search_unlink)
      next
        case False
        with store_inv_distinct [OF inv, of ?h]
        have "search_book_by_isbn k' ?s' = search_book_by_isbn k' s"
          by (simp add: search_book_by_isbn_def chain_search_unlink)
        with store_inv_loans [OF inv, of k'] show ?thesis by simp
      qed
    qed
    with s' show ?thesis by simp
  qed
qed

lemma store_inv_add_user:
  assumes inv: "store_inv s"
  shows "store_inv (add_user nm s)"
proof (rule store_invI)
  fix i n assume "n \<in> set (hash_table (add_user nm s) i)"
  with store_inv_bucket [OF inv] show "hash_function (isbn (snd n)) = i"
    by (simp add: add_user_def)
next
  fix i
  from store_inv_distinct [OF inv]
  show "distinct (map (\<lambda>n. isbn (snd n)) (hash_table (add_user nm s) i))"
    by (simp add: add_user_def)
next
  fix u assume "u \<in> set (user_list (add_user nm s))"
  with store_inv_user [OF inv] show "user_ok u"
    by (auto simp: add_user_def user_ok_def MAX_BORROWED_def)
next
  fix k
  have "search_book_by_isbn k (add_user nm s) = search_book_by_isbn k s"
    by (simp add: search_book_by_isbn_def add_user_def)
  with store_inv_loans [OF inv, of k]
  show "loans k (user_list (add_user nm s)) =
         (case search_book_by_isbn k (add_user nm s) of None \<Rightarrow> 0
          | Some n \<Rightarrow> if available (snd n) = 0 then 1 else 0)"
    by (simp add: add_user_def borrowed_def)
qed

lemma store_inv_remove_user:
  assumes inv: "store_inv s"
  shows "store_inv (snd (remove_user i s))"
proof (cases "find_user i (user_list s)")
  case None
  with inv show ?thesis by (simp add: remove_user_def)
next
  case (Some u)
  show ?thesis
  proof (cases "borrowed_count u > 0")
    case True
    with Some inv show ?thesis by (simp add: remove_user_def)
  next
    case False
    let ?s' = "s\<lparr>user_list := user_unlink i (user_list s)\<rparr>"
    from Some False have s': "snd (remove_user i s) = ?s'"
      by (simp add: remove_user_def)
    from False have empty: "borrowed u = []" by (simp add: borrowed_def)
    have "store_inv ?s'"
    proof (rule store_invI)
      fix j n assume "n \<in> set (hash_table ?s' j)"
      with store_inv_bucket [OF inv] show "hash_function (isbn (snd n)) = j" by simp
    next
      fix j
      from store_inv_distinct [OF inv]
      show "distinct (map (\<lambda>n. isbn (snd n)) (hash_table ?s' j))" by simp
    next
      fix v assume "v \<in> set (user_list ?s')"
      with user_unlink_subset [of i "user_list s"] have "v \<in> set (user_list s)" by auto
      with store_inv_user [OF inv] show "user_ok v" by simp
    next
      fix k
      have "search_book_by_isbn k ?s' = search_book_by_isbn k s"
        by (simp add: search_book_by_isbn_def)
      with store_inv_loans [OF inv, of k] loans_unlink [OF Some empty, of k]
      show "loans k (user_list ?s') =
             (case search_book_by_isbn k ?s' of None \<Rightarrow> 0
              | Some n \<Rightarrow> if available (snd n) = 0 then 1 else 0)"
        by simp
    qed
    with s' show ?thesis by simp
  qed
qed

lemma chain_update_members:
  assumes "chain_search k ns = Some n" and "m \<in> set (chain_update k f ns)"
  shows "m \<in> set ns \<or> m = (fst n, f (snd n))"
proof -
  from chain_search_split [OF assms(1), of f] obtain ns1 ns2
    where "ns = ns1 @ n # ns2" "chain_update k f ns = ns1 @ (fst n, f (snd n)) # ns2" by blast
  with assms(2) show ?thesis by auto
qed

lemma store_inv_loan_change:
  assumes inv: "store_inv s"
    and u: "find_user i (user_list s) = Some u"
    and n: "search_book_by_isbn k s = Some n"
    and fu_ok: "user_ok (fu u)"
    and fb_isbn: "\<And>b. isbn (fb b) = isbn b"
    and loans': "\<And>k'. loans k' (user_update i fu (user_list s)) =
                   (if k' = k then (if available (fb (snd n)) = 0 then 1 else 0)
                    else loans k' (user_list s))"
  shows "store_inv (s\<lparr>user_list := user_update i fu (user_list s),
                      hash_table := (hash_table s)(hash_function k :=
                         chain_update k fb (hash_table s (hash_function k)))\<rparr>)"
    (is "store_inv ?s'")
proof (rule store_invI)
  let ?h = "hash_function k"
  from n have cs: "chain_search k (hash_table s ?h) = Some n"
    by (simp add: search_book_by_isbn_def)
  from chain_search_Some_isbn [OF cs] have nk: "isbn (snd n) = k" and nin: "n \<in> set (hash_table s ?h)"
    by simp_all
  {
    fix j m assume m: "m \<in> set (hash_table ?s' j)"
    show "hash_function (isbn (snd m)) = j"
    proof (cases "j = ?h")
      case True
      with m have "m \<in> set (chain_update k fb (hash_table s ?h))" by simp
      from chain_update_members [OF cs this]
      have "m \<in> set (hash_table s ?h) \<or> m = (fst n, fb (snd n))" .
      with store_inv_bucket [OF inv, of m ?h] nk fb_isbn True show ?thesis by auto
    next
      case False
      with m store_inv_bucket [OF inv, of m j] show ?thesis by simp
    qed
  }
  {
    fix j
    from store_inv_distinct [OF inv] chain_update_isbns [of fb k, OF fb_isbn]
    show "distinct (map (\<lambda>n. isbn (snd n)) (hash_table ?s' j))" by simp
  }
  {
    fix v assume "v \<in> set (user_list ?s')"
    moreover from store_inv_user [OF inv] have "\<forall>v \<in> set (user_list s). user_ok v" by blast
    with user_update_ok [of i "user_list s" u fu] u fu_ok have "\<forall>v \<in> set (user_update i fu (user_list s)). user_ok v" .
    ultimately show "user_ok v" by simp
  }
  {
    fix k'
    show "loans k' (user_list ?s') =
           (case search_book_by_isbn k' ?s' of None \<Rightarrow> 0
            | Some n \<Rightarrow> if available (snd n) = 0 then 1 else 0)"
    proof (cases "k' = k")
      case True
      with cs have "search_book_by_isbn k' ?s' = Some (fst n, fb (snd n))"
        by (simp add: search_book_by_isbn_def chain_search_update [of fb, OF fb_isbn])
      with True loans' [of k'] show ?thesis by simp
    next
      case False
      then have "search_book_by_isbn k' ?s' = search_book_by_isbn k' s"
        by (simp add: search_book_by_isbn_def chain_search_update [of fb, OF fb_isbn])
      with False loans' [of k'] store_inv_loans [OF inv, of k'] show ?thesis by simp
    qed
  }
qed

lemma store_inv_issue_book:
  assumes inv: "store_inv s"
  shows "store_inv (snd (issue_book i k s))"
proof (cases "fst (issue_book i k s)")
  case (Some e)
  then have "snd (issue_book i k s) = s"
    by (auto simp: issue_book_def split: option.splits if_splits)
  with inv show ?thesis by simp
next
  case None
  then obtain u n where u: "find_user i (user_list s) = Some u"
    and n: "search_book_by_isbn k s = Some n"
    and av: "available (snd n) \<noteq> 0" and lim: "borrowed_count u < MAX_BORROWED"
    by (auto simp: issue_book_def split: option.splits if_splits)
  let ?fu = "\<lambda>u. u\<lparr>borrowed_books := (borrowed_books u)[nat (borrowed_count u) := k],
                    borrowed_count := borrowed_count u + 1\<rparr>"
  let ?fb = "\<lambda>b. b\<lparr>available := 0, borrow_count := borrow_count b + 1\<rparr>"
  from u n av lim have s': "snd (issue_book i k s) =
      s\<lparr>user_list := user_update i ?fu (user_list s),
        hash_table := (hash_table s)(hash_function k :=
           chain_update k ?fb (hash_table s (hash_function k)))\<rparr>"
    by (simp add: issue_book_def)
  from find_user_Some [OF u] store_inv_user [OF inv] have ok: "user_ok u" by simp
  have "store_inv (s\<lparr>user_list := user_update i ?fu (user_list s),
        hash_table := (hash_table s)(hash_function k :=
           chain_update k ?fb (hash_table s (hash_function k)))\<rparr>)"
  proof (rule store_inv_loan_change [OF inv u n])
    from user_ok_issue [OF ok lim] show "user_ok (?fu u)" .
  next
    fix b show "isbn (?fb b) = isbn b" by simp
  next
    fix k'
    from store_inv_loans [OF inv, of k] n av have zero: "loans k (user_list s) = 0" by simp
    from loans_update [OF u, of k' ?fu] borrowed_issue [OF ok lim, of k]
    have "loans k' (user_update i ?fu (user_list s)) =
            loans k' (user_list s) + (if k' = k then 1 else 0)" by simp
    with zero show "loans k' (user_update i ?fu (user_list s)) =
        (if k' = k then (if available (?fb (snd n)) = 0 then 1 else 0)
         else loans k' (user_list s))" by simp
  qed
  with s' show ?thesis by simp
qed

lemma return_book_success:
  assumes "fst (return_book i k s) = None"
  obtains u n j where "find_user i (user_list s) = Some u"
    and "search_book_by_isbn k s = Some n"
    and "find_borrowed (borrowed_books u) (nat (borrowed_count u)) k 0 = Some j"
    and "snd (return_book i k s) =
      s\<lparr>user_list := user_update i
           (\<lambda>u. u\<lparr>borrowed_books := shift_left (borrowed_books u) (nat (borrowed_count u)) j,
                  borrowed_count := borrowed_count u - 1\<rparr>) (user_list s),
        hash_table := (hash_table s)(hash_function k :=
           chain_update k (\<lambda>b. b\<lparr>available := 1\<rparr>) (hash_table s (hash_function k)))\<rparr>"
  using assms by (auto simp: return_book_def split: option.splits)

lemma store_inv_return_book:
  assumes inv: "store_inv s"
  shows "store_inv (snd (return_book i k s))"
proof (cases "fst (return_book i k s)")
  case (Some e)
  then have "snd (return_book i k s) = s"
    by (auto simp: return_book_def split: option.splits)
  with inv show ?thesis by simp
next
  case None
  let ?fb = "\<lambda>b. b\<lparr>available := 1\<rparr>"
  from return_book_success [OF None] obtain u n j
    where u: "find_user i (user_list s) = Some u"
    and n: "search_book_by_isbn k s = Some n"
    and j: "find_borrowed (borrowed_books u) (nat (borrowed_count u)) k 0 = Some j"
    and s': "snd (return_book i k s) =
      s\<lparr>user_list := user_update i
           (\<lambda>u. u\<lparr>borrowed_books := shift_left (borrowed_books u) (nat (borrowed_count u)) j,
                  borrowed_count := borrowed_count u - 1\<rparr>) (user_list s),
        hash_table := (hash_table s)(hash_function k :=
           chain_update k ?fb (hash_table s (hash_function k)))\<rparr>" by blast
  let ?fu = "\<lambda>u. u\<lparr>borrowed_books := shift_left (borrowed_books u) (nat (borrowed_count u)) j,
                  borrowed_count := borrowed_count u - 1\<rparr>"
  from find_user_Some [OF u] store_inv_user [OF inv] have ok: "user_ok u" and uin: "u \<in> set (user_list s)"
    by simp_all
  from borrowed_return [OF ok j] obtain xs ys
    where b: "borrowed u = xs @ k # ys" and xs: "k \<notin> set xs" and b': "borrowed (?fu u) = xs @ ys"
    by blast
  have "store_inv (s\<lparr>user_list := user_update i ?fu (user_list s),
        hash_table := (hash_table s)(hash_function k :=
           chain_update k ?fb (hash_table s (hash_function k)))\<rparr>)"
  proof (rule store_inv_loan_change [OF inv u n])
    from user_ok_return [OF ok j] show "user_ok (?fu u)" .
  next
    fix b show "isbn (?fb b) = isbn b" by simp
  next
    fix k'
    from b have "count_list (borrowed u) k \<ge> 1" by simp
    with loans_ge [OF uin, of k] have "loans k (user_list s) \<ge> 1" by simp
    with store_inv_loans [OF inv, of k] n have one: "loans k (user_list s) = 1"
      by (simp split: if_splits)
    from loans_update [OF u, of k' ?fu] b b'
    have "loans k' (user_update i ?fu (user_list s)) + (if k' = k then 1 else 0) =
            loans k' (user_list s)" by (cases "k' = k") auto
    with one show "loans k' (user_update i ?fu (user_list s)) =
        (if k' = k then (if available (?fb (snd n)) = 0 then 1 else 0)
         else loans k' (user_list s))" by (cases "k' = k") auto
  qed
  with s' show ?thesis by simp
qed

lemma store_inv_exec: "store_inv s \<Longrightarrow> store_inv (exec x s)"
  by (cases x)
    (simp_all add: add_book_def store_inv_insert_book store_inv_remove_book store_inv_add_user
      store_inv_remove_user store_inv_issue_book store_inv_return_book)

lemma store_inv_fold: "store_inv s \<Longrightarrow> store_inv (fold exec ops s)"
  by (induction ops arbitrary: s) (simp_all add: store_inv_exec)

lemma store_inv_run: "store_inv (run ops empty_store)"
  by (simp add: run_def store_inv_fold store_inv_empty)

lemma chain_search_member:
  "distinct (map (\<lambda>n. isbn (snd n)) ns) \<Longrightarrow> n \<in> set ns \<Longrightarrow>
     chain_search (isbn (snd n)) ns = Some n"
  by (induction ns) auto

lemma all_nodes_bucket:
  "n \<in> set (all_nodes s) \<Longrightarrow> \<exists>i < HASH_TABLE_SIZE. n \<in> set (hash_table s i)"
  by (auto simp: all_nodes_def)

lemma store_inv_search_node:
  assumes inv: "store_inv s" and n: "n \<in> set (all_nodes s)"
  shows "search_book_by_isbn (isbn (snd n)) s = Some n"
proof -
  from all_nodes_bucket [OF n] obtain i where i: "n \<in> set (hash_table s i)" by blast
  from store_inv_bucket [OF inv i] have "hash_function (isbn (snd n)) = i" .
  with chain_search_member [OF store_inv_distinct [OF inv, of i] i] show ?thesis
    by (simp add: search_book_by_isbn_def)
qed

lemma loans_zero_iff:
  "loans k us = 0 \<longleftrightarrow> filter (\<lambda>u. k \<in> set (borrowed u)) us = []"
  by (induction us) (auto simp: count_list_0_iff)

lemma loans_one_holder:
  "loans k us = 1 \<Longrightarrow> length (filter (\<lambda>u. k \<in> set (borrowed u)) us) = 1"
proof (induction us)
  case Nil
  then show ?case by simp
next
  case (Cons u us)
  show ?case
  proof (cases "k \<in> set (borrowed u)")
    case True
    then have "count_list (borrowed u) k \<noteq> 0" by (simp add: count_list_0_iff)
    with Cons.prems have "loans k us = 0" by simp
    with True show ?thesis by (simp add: loans_zero_iff)
  next
    case False
    then have "count_list (borrowed u) k = 0" by (simp add: count_list_0_iff)
    with Cons False show ?thesis by simp
  qed
qed

lemma find_borrowed_None_conv:
  assumes "cnt \<le> length bs" and "k \<notin> set (take cnt bs)"
  shows "find_borrowed bs cnt k 0 = None"
proof (cases "find_borrowed bs cnt k 0")
  case None
  then show ?thesis .
next
  case (Some j)
  from find_borrowed_Some_split [OF assms(1) Some]
  have "take cnt bs = take j bs @ k # drop (Suc j) (take cnt bs)" by simp
  then have "k \<in> set (take cnt bs)" by (metis in_set_conv_decomp)
  with assms(2) show ?thesis by simp
qed


lemma search_in_all_nodes:
  assumes "search_book_by_isbn k s = Some n"
  shows "n \<in> set (all_nodes s)"
proof -
  from assms chain_search_Some_isbn [of k "hash_table s (hash_function k)" n]
  have "n \<in> set (hash_table s (hash_function k))"
    by (simp add: search_book_by_isbn_def)
  with hash_function_less [of k] show ?thesis
    by (auto simp: all_nodes_def)
qed

subsection \<open>The exchange sort\<close>

lemma bubble_inner_length [simp]: "length (bubble_inner bs lim j) = length bs"
  by (induction bs lim j rule: bubble_inner.induct) (simp add: bubble_inner.simps)

lemma bubble_inner_drop:
  "j \<le> lim \<Longrightarrow> drop (Suc lim) (bubble_inner bs lim j) = drop (Suc lim) bs"
proof (induction bs lim j rule: bubble_inner.induct)
  case (1 bs lim j)
  show ?case
  proof (cases "j < lim")
    case True
    let ?bs = "if borrow_count (snd (bs ! j)) < borrow_count (snd (bs ! Suc j))
               then bs[j := bs ! Suc j, Suc j := bs ! j] else bs"
    from True "1.IH" have "drop (Suc lim) (bubble_inner ?bs lim (Suc j)) = drop (Suc lim) ?bs"
      by simp
    moreover from True have "drop (Suc lim) ?bs = drop (Suc lim) bs"
      by (simp add: drop_update_cancel del: drop_Suc)
    ultimately show ?thesis
      using True by (simp add: bubble_inner.simps [of bs lim j] del: drop_Suc)
  next
    case False
    then show ?thesis by (simp add: bubble_inner.simps [of bs lim j])
  qed
qed

lemma bubble_inner_set:
  "j \<le> lim \<Longrightarrow> lim < length bs \<Longrightarrow>
     set (take (Suc lim) (bubble_inner bs lim j)) = set (take (Suc lim) bs)"
proof (induction bs lim j rule: bubble_inner.induct)
  case (1 bs lim j)
  show ?case
  proof (cases "j < lim")
    case True
    let ?bs = "if borrow_count (snd (bs ! j)) < borrow_count (snd (bs ! Suc j))
               then bs[j := bs ! Suc j, Suc j := bs ! j] else bs"
    from True "1.IH" "1.prems"
    have "set (take (Suc lim) (bubble_inner ?bs lim (Suc j))) = set (take (Suc lim) ?bs)"
      by simp
    moreover have "set (take (Suc lim) ?bs) = set (take (Suc lim) bs)"
    proof -
      let ?t = "take (Suc lim) bs"
      from True "1.prems" have "j < length ?t" "Suc j < length ?t" by simp_all
      then have "set (?t[j := ?t ! Suc j, Suc j := ?t ! j]) = set ?t" by (rule set_swap)
      moreover from True have "?t ! j = bs ! j" "?t ! Suc j = bs ! Suc j" by simp_all
      ultimately show ?thesis by (simp add: take_update_swap del: take_Suc)
    qed
    ultimately show ?thesis
      using True by (simp add: bubble_inner.simps [of bs lim j] del: take_Suc)
  next
    case False
    then show ?thesis by (simp add: bubble_inner.simps [of bs lim j])
  qed
qed

lemma bubble_inner_min:
  "j \<le> lim \<Longrightarrow> lim < length bs \<Longrightarrow>
   (\<forall>l < j. borrow_count (snd (bs ! l)) \<ge> borrow_count (snd (bs ! j))) \<Longrightarrow>
   l \<le> lim \<Longrightarrow>
   borrow_count (snd (bubble_inner bs lim j ! l)) \<ge> borrow_count (snd (bubble_inner bs lim j ! lim))"
proof (induction bs lim j rule: bubble_inner.induct)
  case (1 bs lim j)
  show ?case
  proof (cases "j < lim")
    case True
    let ?bs = "if borrow_count (snd (bs ! j)) < borrow_count (snd (bs ! Suc j))
               then bs[j := bs ! Suc j, Suc j := bs ! j] else bs"
    have pre: "\<forall>l < Suc j. borrow_count (snd (?bs ! l)) \<ge> borrow_count (snd (?bs ! Suc j))"
    proof (intro allI impI)
      fix m assume m: "m < Suc j"
      from True "1.prems"(2) have jl: "j < length bs" "Suc j < length bs" by simp_all
      show "borrow_count (snd (?bs ! m)) \<ge> borrow_count (snd (?bs ! Suc j))"
      proof (cases "m = j")
        case True
        with jl show ?thesis by simp
      next
        case False
        with m have "m < j" by simp
        with "1.prems"(3) have "borrow_count (snd (bs ! m)) \<ge> borrow_count (snd (bs ! j))" by simp
        with jl \<open>m < j\<close> show ?thesis by auto
      qed
    qed
    from True "1.prems" have "Suc j \<le> lim" "lim < length ?bs" by simp_all
    from "1.IH" [OF True this pre "1.prems"(4)] True show ?thesis
      by (simp add: bubble_inner.simps [of bs lim j])
  next
    case False
    with "1.prems" have "j = lim" by simp
    moreover from False have "bubble_inner bs lim j = bs"
      by (simp add: bubble_inner.simps [of bs lim j])
    ultimately show ?thesis
      using "1.prems" by (cases "l = lim") simp_all
  qed
qed

lemma bubble_outer_sorted:
  "length bs = n \<Longrightarrow> i < n \<Longrightarrow>
   sorted_wrt (\<lambda>a b. borrow_count (snd a) \<ge> borrow_count (snd b)) (drop (n - i) bs) \<Longrightarrow>
   (\<forall>x \<in> set (take (n - i) bs). \<forall>y \<in> set (drop (n - i) bs).
       borrow_count (snd x) \<ge> borrow_count (snd y)) \<Longrightarrow>
   sorted_wrt (\<lambda>a b. borrow_count (snd a) \<ge> borrow_count (snd b)) (bubble_outer bs n i)"
proof (induction bs n i rule: bubble_outer.induct)
  case (1 bs n i)
  show ?case
  proof (cases "Suc i < n")
    case True
    let ?lim = "n - i - 1"
    let ?bs = "bubble_inner bs ?lim 0"
    from True "1.prems"(1) have lim: "?lim < length bs" and sl: "Suc ?lim = n - i" by simp_all
    have len: "length ?bs = n" using "1.prems"(1) by simp
    have dr: "drop (n - i) ?bs = drop (n - i) bs"
      using bubble_inner_drop [of 0 ?lim bs] sl by simp
    have st: "set (take (n - i) ?bs) = set (take (n - i) bs)"
      using bubble_inner_set [of 0 ?lim bs] lim sl by simp
    have mn: "\<And>l. l \<le> ?lim \<Longrightarrow> borrow_count (snd (?bs ! l)) \<ge> borrow_count (snd (?bs ! ?lim))"
      using bubble_inner_min [of 0 ?lim bs] lim by simp
    from lim have d1: "drop ?lim ?bs = ?bs ! ?lim # drop (n - i) ?bs"
      using Cons_nth_drop_Suc [of ?lim ?bs] sl by simp
    from lim sl have "?bs ! ?lim \<in> set (take (n - i) ?bs)"
      by (metis bubble_inner_length in_set_conv_nth length_take lessI min.absorb2 nth_take
          Suc_leI)
    with st have in_pre: "?bs ! ?lim \<in> set (take (n - i) bs)" by simp
    have s1: "sorted_wrt (\<lambda>a b. borrow_count (snd a) \<ge> borrow_count (snd b))
               (drop (n - Suc i) ?bs)"
      using d1 dr in_pre "1.prems"(3,4) by simp
    have s2: "\<forall>x \<in> set (take (n - Suc i) ?bs). \<forall>y \<in> set (drop (n - Suc i) ?bs).
                borrow_count (snd x) \<ge> borrow_count (snd y)"
    proof (intro ballI)
      fix x y assume x: "x \<in> set (take (n - Suc i) ?bs)" and y: "y \<in> set (drop (n - Suc i) ?bs)"
      from x obtain l where l: "l < ?lim" "x = ?bs ! l"
        by (auto simp: in_set_conv_nth)
      have "n - Suc i \<le> n - i" by simp
      from set_take_subset_set_take [OF this, of ?bs] x
      have "x \<in> set (take (n - i) ?bs)" by auto
      with st have xin: "x \<in> set (take (n - i) bs)" by simp
      from y d1 dr have "y = ?bs ! ?lim \<or> y \<in> set (drop (n - i) bs)" by simp
      then show "borrow_count (snd x) \<ge> borrow_count (snd y)"
      proof
        assume "y = ?bs ! ?lim"
        with mn [of l] l show ?thesis by simp
      next
        assume "y \<in> set (drop (n - i) bs)"
        with xin "1.prems"(4) show ?thesis by blast
      qed
    qed
    from "1.IH" [OF True len True s1 s2] True show ?thesis
      by (simp add: bubble_outer.simps [of bs n i])
  next
    case False
    with "1.prems"(2) have i: "n - i = 1" by simp
    from "1.prems"(1,2) have "bs \<noteq> []" by auto
    then obtain x xs where bs: "bs = x # xs" by (cases bs) auto
    with "1.prems"(3,4) i have "sorted_wrt (\<lambda>a b. borrow_count (snd a) \<ge> borrow_count (snd b)) bs"
      by simp
    with False show ?thesis by (simp add: bubble_outer.simps [of bs n i])
  qed
qed

lemma bubble_outer_sorted_0:
  "bs \<noteq> [] \<Longrightarrow>
   sorted_wrt (\<lambda>a b. borrow_count (snd a) \<ge> borrow_count (snd b)) (bubble_outer bs (length bs) 0)"
  by (rule bubble_outer_sorted) simp_all


subsection \<open>Printing and reading numbers\<close>

lemma of_char_digit: "d < 10 \<Longrightarrow> (of_char (digit_char d) :: nat) = 48 + d"
  by (simp add: digit_char_def)

lemma isdigit_digit_char: "d < 10 \<Longrightarrow> isdigit (digit_char d)"
  by (simp add: isdigit_def of_char_digit)

lemma digit_char_neq:
  assumes "d < 10" and "(of_char c :: nat) < 48 \<or> 57 < (of_char c :: nat)"
  shows "digit_char d \<noteq> c"
proof
  assume "digit_char d = c"
  then have "(of_char c :: nat) = 48 + d" using of_char_digit [OF assms(1)] by simp
  with assms show False by simp
qed

lemma digit_char_plain:
  assumes "d < 10"
  shows "digit_char d \<noteq> pipe \<and> digit_char d \<noteq> newline \<and> digit_char d \<noteq> CHR ''-'' \<and>
     digit_char d \<noteq> CHR ''+'' \<and> \<not> isspace (digit_char d)"
proof -
  have "digit_char d \<noteq> pipe" by (rule digit_char_neq [OF assms]) (simp add: pipe_def)
  moreover have "digit_char d \<noteq> newline" by (rule digit_char_neq [OF assms]) (simp add: newline_def)
  moreover have "digit_char d \<noteq> CHR ''-''" by (rule digit_char_neq [OF assms]) simp
  moreover have "digit_char d \<noteq> CHR ''+''" by (rule digit_char_neq [OF assms]) simp
  moreover have "digit_char d \<noteq> CHR '' ''" by (rule digit_char_neq [OF assms]) simp
  moreover have "digit_char d \<noteq> CHR 0x09" by (rule digit_char_neq [OF assms]) simp
  moreover have "digit_char d \<noteq> CHR 0x0A" by (rule digit_char_neq [OF assms]) simp
  moreover have "digit_char d \<noteq> CHR 0x0B" by (rule digit_char_neq [OF assms]) simp
  moreover have "digit_char d \<noteq> CHR 0x0C" by (rule digit_char_neq [OF assms]) simp
  moreover have "digit_char d \<noteq> CHR 0x0D" by (rule digit_char_neq [OF assms]) simp
  ultimately show ?thesis by (simp add: isspace_def)
qed

lemma dec_nat_digits: "c \<in> set (dec_nat n) \<Longrightarrow> \<exists>d < 10. c = digit_char d"
proof (induction n rule: dec_nat.induct)
  case (1 n)
  show ?case
  proof (cases "n < 10")
    case True
    with "1.prems" show ?thesis by (auto simp: dec_nat.simps [of n])
  next
    case False
    with "1.prems" have "c \<in> set (dec_nat (n div 10)) \<or> c = digit_char (n mod 10)"
      by (auto simp: dec_nat.simps [of n])
    moreover have "n mod 10 < 10" by simp
    ultimately show ?thesis using "1.IH" [OF False] by blast
  qed
qed

lemma dec_nat_not_Nil: "dec_nat n \<noteq> []"
  by (simp add: dec_nat.simps [of n])

lemma atoi_digits_dec_nat:
  "atoi_digits acc (dec_nat n @ rest) =
     atoi_digits (acc * 10 ^ length (dec_nat n) + int n) rest"
proof (induction n arbitrary: acc rest rule: dec_nat.induct)
  case (1 n)
  show ?case
  proof (cases "n < 10")
    case True
    then show ?thesis
      by (simp add: dec_nat.simps [of n] isdigit_digit_char of_char_digit)
  next
    case False
    let ?m = "n div 10" and ?d = "n mod 10"
    have d: "?d < 10" by simp
    from False have "atoi_digits acc (dec_nat n @ rest) =
        atoi_digits acc (dec_nat ?m @ (digit_char ?d # rest))"
      by (simp add: dec_nat.simps [of n])
    also from "1.IH" [OF False] have "\<dots> =
        atoi_digits (acc * 10 ^ length (dec_nat ?m) + int ?m) (digit_char ?d # rest)" .
    also have "\<dots> =
        atoi_digits ((acc * 10 ^ length (dec_nat ?m) + int ?m) * 10 + int ?d) rest"
      using d by (simp add: isdigit_digit_char of_char_digit)
    also have "(acc * 10 ^ length (dec_nat ?m) + int ?m) * 10 + int ?d =
        acc * 10 ^ length (dec_nat n) + int n"
    proof -
      have "int ?m * 10 + int ?d = int n" by (simp add: zdiv_int zmod_int)
      moreover from False have "length (dec_nat n) = Suc (length (dec_nat ?m))"
        by (simp add: dec_nat.simps [of n])
      ultimately show ?thesis by (simp add: algebra_simps)
    qed
    finally show ?thesis .
  qed
qed

lemma atoi_digits_dec_nat_0: "atoi_digits 0 (dec_nat n) = int n"
  using atoi_digits_dec_nat [of 0 n "[]"] by simp

lemma atoi_print_int: "atoi (print_int i) = i"
proof (cases "i < 0")
  case True
  have "\<not> isspace (CHR ''-'')" by (simp add: isspace_def)
  with True show ?thesis
    by (simp add: print_int_def atoi_def atoi_digits_dec_nat_0)
next
  case False
  obtain c cs where cs: "dec_nat (nat i) = c # cs"
    using dec_nat_not_Nil [of "nat i"] by (cases "dec_nat (nat i)") auto
  then have "c \<in> set (dec_nat (nat i))" by simp
  from dec_nat_digits [OF this] obtain d where "d < 10" "c = digit_char d" by blast
  with digit_char_plain [of d] have "c \<noteq> CHR ''-''" "c \<noteq> CHR ''+''" "\<not> isspace c" by simp_all
  with False cs atoi_digits_dec_nat_0 [of "nat i"] show ?thesis
    by (simp add: print_int_def atoi_def)
qed

lemma dec_nat_plain:
  assumes "c \<in> set (dec_nat n)"
  shows "c \<noteq> pipe \<and> c \<noteq> newline"
proof -
  from dec_nat_digits [OF assms] obtain d where d: "d < 10" "c = digit_char d" by blast
  from digit_char_plain [OF d(1)] d(2) show ?thesis by simp
qed

lemma print_int_plain:
  "print_int i \<noteq> [] \<and> pipe \<notin> set (print_int i) \<and> newline \<notin> set (print_int i)"
proof -
  have m: "CHR ''-'' \<noteq> pipe" "CHR ''-'' \<noteq> newline" by (simp_all add: pipe_def newline_def)
  have p: "pipe \<notin> set (dec_nat k)" for k
  proof
    assume "pipe \<in> set (dec_nat k)"
    from dec_nat_plain [OF this] show False by simp
  qed
  have q: "newline \<notin> set (dec_nat k)" for k
  proof
    assume "newline \<in> set (dec_nat k)"
    from dec_nat_plain [OF this] show False by simp
  qed
  show ?thesis
  proof (cases "i < 0")
    case True
    with m p [of "nat (- i)"] q [of "nat (- i)"] show ?thesis
      by (simp add: print_int_def)
  next
    case False
    with p [of "nat i"] q [of "nat i"] dec_nat_not_Nil [of "nat i"] show ?thesis
      by (simp add: print_int_def)
  qed
qed

lemma dec_nat_length: "n < 10 ^ k \<Longrightarrow> 0 < k \<Longrightarrow> length (dec_nat n) \<le> k"
proof (induction n arbitrary: k rule: dec_nat.induct)
  case (1 n)
  show ?case
  proof (cases "n < 10")
    case True
    with "1.prems" show ?thesis by (simp add: dec_nat.simps [of n])
  next
    case False
    from "1.prems" obtain k' where k: "k = Suc k'" by (cases k) auto
    with False "1.prems" have "0 < k'" by (cases k') auto
    moreover from k "1.prems" have "n div 10 < 10 ^ k'" by (simp add: less_mult_imp_div_less mult.commute)
    ultimately have "length (dec_nat (n div 10)) \<le> k'" using "1.IH" [OF False] by simp
    with False k show ?thesis by (simp add: dec_nat.simps [of n])
  qed
qed

lemma print_int_length: "c_int i \<Longrightarrow> length (print_int i) \<le> 11"
proof -
  assume "c_int i"
  then have "nat (- i) < 10 ^ 10" "nat i < 10 ^ 10" by (auto simp: c_int_def)
  then have "length (dec_nat (nat (- i))) \<le> 10" "length (dec_nat (nat i)) \<le> 10"
    by (simp_all add: dec_nat_length)
  then show ?thesis by (simp add: print_int_def)
qed

subsection \<open>Tokens and lines\<close>

lemma takeWhile_field:
  assumes "pipe \<notin> set f"
  shows "takeWhile (\<lambda>c. c \<noteq> pipe) (f @ pipe # rest) = f"
    and "dropWhile (\<lambda>c. c \<noteq> pipe) (f @ pipe # rest) = pipe # rest"
proof -
  from assms have all: "\<And>x. x \<in> set f \<Longrightarrow> x \<noteq> pipe" by auto
  from takeWhile_append2 [of f "\<lambda>c. c \<noteq> pipe" "pipe # rest", OF all]
  show "takeWhile (\<lambda>c. c \<noteq> pipe) (f @ pipe # rest) = f" by simp
  from dropWhile_append2 [of f "\<lambda>c. c \<noteq> pipe" "pipe # rest", OF all]
  show "dropWhile (\<lambda>c. c \<noteq> pipe) (f @ pipe # rest) = pipe # rest" by simp
qed

lemma strtok_field:
  assumes "f \<noteq> []" and "pipe \<notin> set f"
  shows "strtok (f @ pipe # rest) = Some (f, rest)"
proof -
  from assms obtain c cs where f: "f = c # cs" and c: "c \<noteq> pipe" by (cases f) auto
  then have dw: "dropWhile (\<lambda>c. c = pipe) (f @ pipe # rest) = f @ pipe # rest" by simp
  from dw takeWhile_field [OF assms(2), of rest] f show ?thesis
    by (simp add: strtok_def)
qed

lemma strtok_last:
  assumes "f \<noteq> []" and "pipe \<notin> set f"
  shows "strtok f = Some (f, [])"
proof -
  from assms obtain c cs where f: "f = c # cs" and c: "c \<noteq> pipe" by (cases f) auto
  then have dw: "dropWhile (\<lambda>c. c = pipe) f = f" by simp
  from assms(2) have all: "\<forall>x \<in> set f. x \<noteq> pipe" by auto
  then have "takeWhile (\<lambda>c. c \<noteq> pipe) f = f" by (simp add: takeWhile_eq_all_conv)
  moreover from all have "dropWhile (\<lambda>c. c \<noteq> pipe) f = []" by simp
  ultimately show ?thesis using dw f by (simp add: strtok_def)
qed

lemma strtok_skip: "strtok (pipe # str) = strtok str"
  by (simp add: strtok_def)

lemma chop_line:
  assumes "newline \<notin> set l"
  shows "chop (l @ [newline]) = l"
proof -
  from assms have all: "\<And>x. x \<in> set l \<Longrightarrow> x \<noteq> newline" by auto
  from takeWhile_append2 [of l "\<lambda>c. c \<noteq> newline" "[newline]", OF all]
  show ?thesis by (simp add: chop_def)
qed

lemma fgets_take_line:
  "newline \<notin> set l \<Longrightarrow> length l < n \<Longrightarrow>
     fgets_take n (l @ newline # rest) = (l @ [newline], rest)"
proof (induction l arbitrary: n)
  case Nil
  then show ?case by simp
next
  case (Cons c cs)
  from Cons.prems have "length cs < n - 1" and "c \<noteq> newline" and "newline \<notin> set cs" by auto
  with Cons.IH [of "n - 1"] Cons.prems show ?case by simp
qed

lemma fgets_line:
  "newline \<notin> set l \<Longrightarrow> Suc (length l) < sz \<Longrightarrow>
     fgets sz (l @ newline # rest) = Some (l @ [newline], rest)"
  by (simp add: fgets_def fgets_take_line)

subsection \<open>A line of the books file\<close>

lemma field_okD:
  "field_ok sz f \<Longrightarrow> f \<noteq> [] \<and> length f < sz \<and> pipe \<notin> set f \<and> newline \<notin> set f"
  by (simp add: field_ok_def)

lemma book_body:
  "book_line b =
     (isbn b @ pipe # title b @ pipe # author b @ pipe # genre b @ pipe #
      print_int (available b) @ pipe # print_int (borrow_count b)) @ [newline]"
  by (simp add: book_line_def)

lemma parse_book_line:
  assumes "book_ok b"
  shows "parse_book (chop (book_line b)) = Some b"
proof -
  let ?body = "isbn b @ pipe # title b @ pipe # author b @ pipe # genre b @ pipe #
      print_int (available b) @ pipe # print_int (borrow_count b)"
  from assms have f: "isbn b \<noteq> []" "pipe \<notin> set (isbn b)" "newline \<notin> set (isbn b)"
    "title b \<noteq> []" "pipe \<notin> set (title b)" "newline \<notin> set (title b)"
    "author b \<noteq> []" "pipe \<notin> set (author b)" "newline \<notin> set (author b)"
    "genre b \<noteq> []" "pipe \<notin> set (genre b)" "newline \<notin> set (genre b)"
    by (simp_all add: book_ok_def field_ok_def)
  have np: "pipe \<noteq> newline" by (simp add: pipe_def newline_def)
  from f np print_int_plain [of "available b"] print_int_plain [of "borrow_count b"]
  have "newline \<notin> set ?body" by simp
  then have "chop (book_line b) = ?body"
    unfolding book_body by (rule chop_line)
  moreover have "parse_book ?body =
      Some \<lparr>isbn = isbn b, title = title b, author = author b, genre = genre b,
            available = atoi (print_int (available b)),
            borrow_count = atoi (print_int (borrow_count b))\<rparr>"
    using f print_int_plain [of "available b"] print_int_plain [of "borrow_count b"]
    by (simp add: parse_book_def strtok_field strtok_last)
  ultimately show ?thesis by (simp add: atoi_print_int)
qed

lemma book_line_fits:
  assumes "book_ok b"
  shows "\<exists>l. book_line b = l @ [newline] \<and> newline \<notin> set l \<and> Suc (length l) < 512"
proof -
  let ?body = "isbn b @ pipe # title b @ pipe # author b @ pipe # genre b @ pipe #
      print_int (available b) @ pipe # print_int (borrow_count b)"
  from assms have f: "newline \<notin> set (isbn b)" "newline \<notin> set (title b)"
    "newline \<notin> set (author b)" "newline \<notin> set (genre b)"
    and l: "length (isbn b) < 20" "length (title b) < 100" "length (author b) < 50"
      "length (genre b) < 30"
    and c: "c_int (available b)" "c_int (borrow_count b)"
    by (simp_all add: book_ok_def field_ok_def MAX_ISBN_LENGTH_def MAX_TITLE_LENGTH_def
        MAX_AUTHOR_LENGTH_def MAX_GENRE_LENGTH_def)
  have np: "pipe \<noteq> newline" by (simp add: pipe_def newline_def)
  from f np print_int_plain [of "available b"] print_int_plain [of "borrow_count b"]
  have "newline \<notin> set ?body" by simp
  moreover from l print_int_length [OF c(1)] print_int_length [OF c(2)]
  have "Suc (length ?body) < 512" by simp
  ultimately show ?thesis using book_body by blast
qed

lemma fgets_book_line:
  assumes "book_ok b"
  shows "fgets 512 (book_line b @ rest) = Some (book_line b, rest)"
proof -
  from book_line_fits [OF assms] obtain l
    where l: "book_line b = l @ [newline]" "newline \<notin> set l" "Suc (length l) < 512" by blast
  from fgets_line [OF l(2,3), of rest] l(1) show ?thesis by simp
qed

subsection \<open>Loading the books file\<close>

lemma set_all_nodes: "set (all_nodes s) = (\<Union>i < HASH_TABLE_SIZE. set (hash_table s i))"
  by (auto simp: all_nodes_def)

lemma all_nodes_load_book_line:
  assumes "parse_book line = Some b"
  shows "set (all_nodes (load_book_line stale p line s)) = insert (p, b) (set (all_nodes s))"
proof -
  let ?h = "hash_function (isbn b)"
  from assms have ht: "hash_table (load_book_line stale p line s) =
      (hash_table s)(?h := (p, b) # hash_table s ?h)"
    by (simp add: load_book_line_def Let_def)
  have "?h < HASH_TABLE_SIZE" by (rule hash_function_less)
  then show ?thesis
    unfolding set_all_nodes ht by (auto split: if_splits)
qed

lemma load_books_loop_nodes:
  "list_all book_ok bs \<Longrightarrow>
   snd ` set (all_nodes (load_books_loop stale alloc ln (concat (map book_line bs)) s)) =
     set bs \<union> snd ` set (all_nodes s)"
proof (induction bs arbitrary: ln s)
  case Nil
  then show ?case by (simp add: load_books_loop.simps [of _ _ _ "[]"] fgets_def)
next
  case (Cons b bs)
  from Cons.prems have b: "book_ok b" and bs: "list_all book_ok bs" by simp_all
  let ?s1 = "load_book_line stale (alloc ln) (chop (book_line b)) s"
  have "load_books_loop stale alloc ln (concat (map book_line (b # bs))) s =
        load_books_loop stale alloc (Suc ln) (concat (map book_line bs)) ?s1"
    using fgets_book_line [OF b, of "concat (map book_line bs)"]
    by (simp add: load_books_loop.simps [of _ _ ln "book_line b @ concat (map book_line bs)"])
  moreover from Cons.IH [OF bs, of "Suc ln" ?s1]
  have "snd ` set (all_nodes (load_books_loop stale alloc (Suc ln) (concat (map book_line bs)) ?s1)) =
      set bs \<union> snd ` set (all_nodes ?s1)" .
  moreover from all_nodes_load_book_line [OF parse_book_line [OF b]]
  have "set (all_nodes ?s1) = insert (alloc ln, b) (set (all_nodes s))" .
  ultimately show ?case by auto
qed

lemma load_books_loop_users:
  "user_list (load_books_loop stale alloc ln f s) = user_list s \<and>
   next_user_id (load_books_loop stale alloc ln f s) = next_user_id s"
proof (induction stale alloc ln f s rule: load_books_loop.induct)
  case (1 stale alloc ln f s)
  show ?case
  proof (cases "fgets 512 f")
    case None
    then show ?thesis by (simp add: load_books_loop.simps [of _ _ ln f])
  next
    case (Some x)
    obtain line rest where x: "x = (line, rest)" by (cases x)
    have "user_list (load_book_line stale (alloc ln) (chop line) s) = user_list s \<and>
          next_user_id (load_book_line stale (alloc ln) (chop line) s) = next_user_id s"
      by (simp add: load_book_line_def Let_def split: option.splits)
    with "1.IH" [OF Some x [symmetric]] Some x show ?thesis
      by (simp add: load_books_loop.simps [of _ _ ln f])
  qed
qed

lemma save_books_concat:
  "save_books_to_file s = concat (map book_line (map snd (all_nodes s)))"
  by (simp add: save_books_to_file_def comp_def)

lemma books_round_trip:
  assumes "list_all (\<lambda>n. book_ok (snd n)) (all_nodes s)"
  shows "snd ` set (all_nodes
           (load_books_from_file stale alloc (Some (save_books_to_file s)) empty_store)) =
         snd ` set (all_nodes s)"
proof -
  from assms have "list_all book_ok (map snd (all_nodes s))"
    by (simp add: list_all_iff)
  from load_books_loop_nodes [OF this, of stale alloc 0 empty_store]
  have "snd ` set (all_nodes (load_books_loop stale alloc 0 (save_books_to_file s) empty_store)) =
      snd ` set (all_nodes s) \<union> snd ` set (all_nodes empty_store)"
    by (simp add: save_books_concat)
  moreover have "all_nodes empty_store = []"
    by (simp add: all_nodes_def empty_store_def)
  ultimately show ?thesis by (simp add: load_books_from_file_def)
qed

subsection \<open>A line of the users file\<close>

lemma read_borrowed_skip:
  "read_borrowed n i (pipe # str) bs = read_borrowed n i str bs"
  by (induction n arbitrary: i bs) (simp_all add: strtok_skip split: option.splits)

lemma strtok_entries:
  assumes "k \<noteq> []" and "pipe \<notin> set k"
  shows "\<exists>r. strtok (k @ concat (map (\<lambda>k. pipe # k) ks)) = Some (k, r) \<and>
             (\<forall>n i bs. read_borrowed n i r bs =
                        read_borrowed n i (concat (map (\<lambda>k. pipe # k) ks)) bs)"
proof (cases ks)
  case Nil
  with strtok_last [OF assms] show ?thesis by simp
next
  case (Cons k' ks')
  with strtok_field [OF assms, of "k' @ concat (map (\<lambda>k. pipe # k) ks')"]
  show ?thesis by (simp add: read_borrowed_skip)
qed

lemma read_borrowed_entries:
  "list_all (field_ok sz) ks \<Longrightarrow> i + length ks \<le> length bs \<Longrightarrow>
   take (i + length ks) (read_borrowed (length ks) i (concat (map (\<lambda>k. pipe # k) ks)) bs) =
     take i bs @ ks \<and>
   length (read_borrowed (length ks) i (concat (map (\<lambda>k. pipe # k) ks)) bs) = length bs"
proof (induction ks arbitrary: i bs)
  case Nil
  then show ?case by simp
next
  case (Cons k ks)
  from Cons.prems(1) have ks: "list_all (field_ok sz) ks" by simp
  from Cons.prems(1) have k: "k \<noteq> []" "pipe \<notin> set k"
    by (simp_all add: field_ok_def)
  from strtok_entries [OF k, of ks] obtain r
    where r: "strtok (k @ concat (map (\<lambda>k. pipe # k) ks)) = Some (k, r)"
      and rr: "\<And>n i bs. read_borrowed n i r bs =
                 read_borrowed n i (concat (map (\<lambda>k. pipe # k) ks)) bs" by blast
  have step: "read_borrowed (length (k # ks)) i (concat (map (\<lambda>k. pipe # k) (k # ks))) bs =
      read_borrowed (length ks) (Suc i) (concat (map (\<lambda>k. pipe # k) ks)) (bs[i := k])"
    using r rr by (simp add: strtok_skip)
  from Cons.prems(2) have len: "Suc i + length ks \<le> length (bs[i := k])" and i: "i < length bs"
    by simp_all
  from Cons.IH [OF ks len] i step show ?case
    by (simp add: take_Suc_conv_app_nth)
qed

lemma user_body:
  "user_line u =
     (print_int (user_id u) @ pipe # name u @ pipe # print_int (borrowed_count u) @
      concat (map (\<lambda>k. pipe # k) (borrowed u))) @ [newline]"
  by (simp add: user_line_def)

lemma entries_plain:
  "list_all (field_ok sz) ks \<Longrightarrow> newline \<notin> set (concat (map (\<lambda>k. pipe # k) ks))"
  by (induction ks) (auto simp: field_ok_def pipe_def newline_def)

lemma entries_length:
  "list_all (field_ok 20) ks \<Longrightarrow> length (concat (map (\<lambda>k. pipe # k) ks)) \<le> 20 * length ks"
  by (induction ks) (auto simp: field_ok_def)

lemma borrowed_length: "user_ok u \<Longrightarrow> length (borrowed u) = nat (borrowed_count u)"
  by (auto simp: user_ok_def borrowed_def)

lemma parse_user_line:
  assumes "saved_user_ok u"
  shows "\<exists>u'. parse_user (chop (user_line u)) = Some u' \<and> user_tuple u' = user_tuple u"
proof -
  let ?ks = "borrowed u"
  let ?tail = "concat (map (\<lambda>k. pipe # k) ?ks)"
  let ?body = "print_int (user_id u) @ pipe # name u @ pipe # print_int (borrowed_count u) @ ?tail"
  from assms have ok: "user_ok u" and ks: "list_all (field_ok MAX_ISBN_LENGTH) ?ks"
    by (simp_all add: saved_user_ok_def)
  from assms have nm: "name u \<noteq> []" "pipe \<notin> set (name u)" "newline \<notin> set (name u)"
    by (simp_all add: saved_user_ok_def field_ok_def)
  have np: "pipe \<noteq> newline" by (simp add: pipe_def newline_def)
  from nm np entries_plain [OF ks] print_int_plain [of "user_id u"]
    print_int_plain [of "borrowed_count u"]
  have "newline \<notin> set ?body" by simp
  then have chop: "chop (user_line u) = ?body"
    unfolding user_body by (rule chop_line)
  have t3: "\<exists>r. strtok (print_int (borrowed_count u) @ ?tail) =
                  Some (print_int (borrowed_count u), r) \<and>
               (\<forall>n i bs. read_borrowed n i r bs = read_borrowed n i ?tail bs)"
    using print_int_plain [of "borrowed_count u"] by (intro strtok_entries) simp_all
  then obtain r where r: "strtok (print_int (borrowed_count u) @ ?tail) =
                  Some (print_int (borrowed_count u), r)"
    and rr: "\<And>n i bs. read_borrowed n i r bs = read_borrowed n i ?tail bs" by blast
  let ?bs = "read_borrowed (nat (borrowed_count u)) 0 ?tail (replicate (nat MAX_BORROWED) [])"
  let ?u' = "\<lparr>user_id = user_id u, name = name u, borrowed_books = ?bs,
              borrowed_count = borrowed_count u\<rparr>"
  have "parse_user ?body = Some ?u'"
    using nm print_int_plain [of "user_id u"] r rr
    by (simp add: parse_user_def strtok_field atoi_print_int)
  moreover have "borrowed ?u' = ?ks"
  proof -
    from ok have "0 + length ?ks \<le> length (replicate (nat MAX_BORROWED) ([] :: string))"
      by (auto simp: user_ok_def borrowed_def)
    from read_borrowed_entries [OF ks this] borrowed_length [OF ok]
    show ?thesis by (simp add: borrowed_def)
  qed
  ultimately show ?thesis using chop by (simp add: user_tuple_def)
qed

lemma user_line_fits:
  assumes "saved_user_ok u"
  shows "\<exists>l. user_line u = l @ [newline] \<and> newline \<notin> set l \<and> Suc (length l) < 1024"
proof -
  let ?ks = "borrowed u"
  let ?tail = "concat (map (\<lambda>k. pipe # k) ?ks)"
  let ?body = "print_int (user_id u) @ pipe # name u @ pipe # print_int (borrowed_count u) @ ?tail"
  from assms have ok: "user_ok u" and ks: "list_all (field_ok 20) ?ks" and c: "c_int (user_id u)"
    by (simp_all add: saved_user_ok_def MAX_ISBN_LENGTH_def)
  from assms have nm: "newline \<notin> set (name u)" "length (name u) < 50"
    by (simp_all add: saved_user_ok_def field_ok_def MAX_NAME_LENGTH_def)
  from ok have cc: "c_int (borrowed_count u)" and n: "length ?ks \<le> 10"
    by (auto simp: user_ok_def c_int_def MAX_BORROWED_def borrowed_def)
  have np: "pipe \<noteq> newline" by (simp add: pipe_def newline_def)
  from nm np entries_plain [OF ks] print_int_plain [of "user_id u"]
    print_int_plain [of "borrowed_count u"]
  have "newline \<notin> set ?body" by simp
  moreover from nm entries_length [OF ks] n print_int_length [OF c] print_int_length [OF cc]
  have "Suc (length ?body) < 1024" by simp
  ultimately show ?thesis using user_body by blast
qed

lemma fgets_user_line:
  assumes "saved_user_ok u"
  shows "fgets 1024 (user_line u @ rest) = Some (user_line u, rest)"
proof -
  from user_line_fits [OF assms] obtain l
    where l: "user_line u = l @ [newline]" "newline \<notin> set l" "Suc (length l) < 1024" by blast
  from fgets_line [OF l(2,3), of rest] l(1) show ?thesis by simp
qed

subsection \<open>Loading the users file\<close>

lemma load_users_loop_tuples:
  "list_all saved_user_ok us \<Longrightarrow>
   map user_tuple (fst (load_users_loop (concat (map user_line us)) temp m)) =
     rev (map user_tuple us) @ map user_tuple temp"
proof (induction us arbitrary: temp m)
  case Nil
  then show ?case by (simp add: load_users_loop.simps [of "[]"] fgets_def)
next
  case (Cons u us)
  from Cons.prems have u: "saved_user_ok u" and us: "list_all saved_user_ok us" by simp_all
  from parse_user_line [OF u] obtain u'
    where u': "parse_user (chop (user_line u)) = Some u'" "user_tuple u' = user_tuple u" by blast
  let ?m = "if user_id u' > m then user_id u' else m"
  have "load_users_loop (concat (map user_line (u # us))) temp m =
        load_users_loop (concat (map user_line us)) (u' # temp) ?m"
    using fgets_user_line [OF u, of "concat (map user_line us)"] u'(1)
    by (simp add: load_users_loop.simps [of "user_line u @ concat (map user_line us)"])
  with Cons.IH [OF us, of "u' # temp" ?m] u'(2) show ?case by simp
qed

lemma move_users_rev: "move_users xs ys = rev xs @ ys"
  by (induction xs arbitrary: ys) simp_all

lemma users_round_trip:
  assumes "list_all saved_user_ok (user_list s)"
  shows "map user_tuple (user_list (load_users_from_file (Some (save_users_to_file s)) s0)) =
         map user_tuple (user_list s)"
proof -
  obtain temp m where l: "load_users_loop (save_users_to_file s) [] 1000 = (temp, m)"
    by (cases "load_users_loop (save_users_to_file s) [] 1000")
  from load_users_loop_tuples [OF assms, of "[]" 1000] l
  have "map user_tuple temp = rev (map user_tuple (user_list s))"
    by (simp add: save_users_to_file_def)
  with l show ?thesis
    by (simp add: load_users_from_file_def move_users_rev rev_map [symmetric])
qed

lemma load_users_nodes:
  "hash_table (load_users_from_file f s) = hash_table s"
  by (simp add: load_users_from_file_def split: option.splits prod.splits)

subsection \<open>The order of the user list\<close>

lemma user_update_ids:
  "(\<And>u. user_id (f u) = user_id u) \<Longrightarrow> map user_id (user_update i f us) = map user_id us"
  by (induction us) auto

lemma user_unlink_ids:
  "sorted_wrt (\<lambda>a b. a > b) (map user_id us) \<Longrightarrow>
     sorted_wrt (\<lambda>a b. a > b) (map user_id (user_unlink i us))"
proof (induction us)
  case Nil
  then show ?case by simp
next
  case (Cons u us)
  from user_unlink_subset [of i us] Cons show ?case by auto
qed

lemma ids_inv_users:
  assumes "ids_inv s" and "map user_id (user_list s') = map user_id (user_list s)"
    and "next_user_id s' = next_user_id s"
  shows "ids_inv s'"
proof -
  from assms(1) have "\<forall>i \<in> set (map user_id (user_list s)). i < next_user_id s"
    by (auto simp: ids_inv_def list_all_iff)
  with assms(2,3) have "\<forall>i \<in> set (map user_id (user_list s')). i < next_user_id s'"
    by simp
  then have "list_all (\<lambda>u. user_id u < next_user_id s') (user_list s')"
    by (auto simp: list_all_iff)
  with assms show ?thesis by (simp add: ids_inv_def)
qed

lemma ids_inv_exec:
  assumes "ids_inv s"
  shows "ids_inv (exec x s)"
proof (cases x)
  case (AddBook stale p i t a g)
  have "user_list (exec x s) = user_list s" "next_user_id (exec x s) = next_user_id s"
    by (simp_all add: AddBook add_book_def insert_book_def Let_def split: option.splits)
  with ids_inv_users [OF assms] show ?thesis by simp
next
  case (RemoveBook k)
  have "user_list (exec x s) = user_list s" "next_user_id (exec x s) = next_user_id s"
    by (simp_all add: RemoveBook remove_book_def Let_def split: option.splits)
  with ids_inv_users [OF assms] show ?thesis by simp
next
  case (AddUser nm)
  from assms show ?thesis
    by (auto simp: AddUser add_user_def ids_inv_def list_all_iff)
next
  case (RemoveUser i)
  show ?thesis
  proof (cases "fst (remove_user i s)")
    case (Some e)
    then have "snd (remove_user i s) = s"
      by (auto simp: remove_user_def split: option.splits if_splits)
    with assms RemoveUser show ?thesis by simp
  next
    case None
    then have "exec x s = s\<lparr>user_list := user_unlink i (user_list s)\<rparr>"
      by (auto simp: RemoveUser remove_user_def split: option.splits if_splits)
    with assms user_unlink_ids [of "user_list s" i] user_unlink_subset [of i "user_list s"]
    show ?thesis by (auto simp: ids_inv_def list_all_iff)
  qed
next
  case (Issue i k)
  have "map user_id (user_list (exec x s)) = map user_id (user_list s)"
    "next_user_id (exec x s) = next_user_id s"
    by (simp_all add: Issue issue_book_def user_update_ids split: option.splits)
  with ids_inv_users [OF assms] show ?thesis by simp
next
  case (Return i k)
  have "map user_id (user_list (exec x s)) = map user_id (user_list s)"
    "next_user_id (exec x s) = next_user_id s"
    by (simp_all add: Return return_book_def user_update_ids split: option.splits)
  with ids_inv_users [OF assms] show ?thesis by simp
qed

lemma ids_inv_fold: "ids_inv s \<Longrightarrow> ids_inv (fold exec ops s)"
  by (induction ops arbitrary: s) (simp_all add: ids_inv_exec)

lemma ids_inv_empty: "ids_inv empty_store"
  by (simp add: ids_inv_def empty_store_def)

lemma ids_inv_run: "ids_inv (run ops empty_store)"
  unfolding run_def by (rule ids_inv_fold [OF ids_inv_empty])

subsection \<open>The concrete run\<close>

lemma demo_users:
  "user_list demo_store =
     [\<lparr>user_id = 1002, name = ''bob'',
       borrowed_books = [''c0'', [], [], [], [], [], [], [], [], []], borrowed_count = 1\<rparr>,
      \<lparr>user_id = 1001, name = ''ann'',
       borrowed_books = [''b0'', ''b1'', ''b2'', ''b3'', ''b4'', ''b5'', ''b6'', ''b7'', ''b8'', ''b9''],
       borrowed_count = 10\<rparr>]"
  unfolding demo_store_def demo_ops_def by code_simp

lemma demo_c0:
  "search_book_by_isbn ''c0'' demo_store =
     Some (10, \<lparr>isbn = ''c0'', title = ''U0'', author = ''A'', genre = ''G'', available = 0,
                borrow_count = 1\<rparr>)"
  unfolding demo_store_def demo_ops_def by code_simp

lemma demo_c1:
  "search_book_by_isbn ''c1'' demo_store =
     Some (11, \<lparr>isbn = ''c1'', title = ''U1'', author = ''A'', genre = ''G'', available = 1,
                borrow_count = 0\<rparr>)"
  unfolding demo_store_def demo_ops_def by code_simp

lemma demo_zz: "search_book_by_isbn ''zz'' demo_store = None"
  unfolding demo_store_def demo_ops_def by code_simp

lemma demo_b3:
  "search_book_by_isbn ''b3'' demo_store =
     Some (3, \<lparr>isbn = ''b3'', title = ''T3'', author = ''A'', genre = ''G'', available = 0,
               borrow_count = 1\<rparr>)"
  unfolding demo_store_def demo_ops_def by code_simp

lemma report_eval:
  "list_most_borrowed_books report_store =
     [(1, \<lparr>isbn = ''y'', title = ''Y'', author = ''A'', genre = ''G'', available = 0,
            borrow_count = 2\<rparr>),
      (2, \<lparr>isbn = ''z'', title = ''Z'', author = ''A'', genre = ''G'', available = 0,
            borrow_count = 1\<rparr>)]"
  unfolding report_store_def by code_simp

lemma persist_ok: "store_ok persist_store"
  unfolding persist_store_def by code_simp

lemma pipe_eval:
  "map snd (all_nodes (load_books_from_file (\<lambda>_. []) (\<lambda>n. n)
       (Some (save_books_to_file pipe_store)) empty_store)) =
     [\<lparr>isbn = ''111'', title = ''A'', author = ''B'', genre = ''X'', available = 0,
       borrow_count = 1\<rparr>]"
  unfolding pipe_store_def by code_simp

lemma pipe_nodes:
  "map snd (all_nodes pipe_store) =
     [\<lparr>isbn = ''111'', title = ''A|B'', author = ''X'', genre = ''Tech'', available = 1,
       borrow_count = 0\<rparr>]"
  unfolding pipe_store_def by code_simp

lemma persist_users_eval:
  "map user_id (user_list (load_users_from_file (Some (save_users_to_file persist_store))
      empty_store)) = [1002, 1001]"
  unfolding persist_store_def by code_simp

lemma persist_users:
  "map user_id (user_list persist_store) = [1002, 1001]"
  unfolding persist_store_def by code_simp

section \<open>Claims about circulation\<close>

text \<open>
  C1. In every state reached from the empty store by adding and removing books and
  users, issuing and returning, a book of the table is unavailable exactly when one
  user's borrowed sequence contains its ISBN, and available exactly when none does.
\<close>

theorem availability_matches_holders:
  assumes s: "s = run ops empty_store" and n: "n \<in> set (all_nodes s)"
  shows "(available (snd n) = 0 \<longleftrightarrow> length (holders (isbn (snd n)) s) = 1) \<and>
         (available (snd n) \<noteq> 0 \<longleftrightarrow> holders (isbn (snd n)) s = [])"
proof -
  from s have inv: "store_inv s" by (simp add: store_inv_run)
  let ?k = "isbn (snd n)"
  from store_inv_loans [OF inv, of ?k] store_inv_search_node [OF inv n]
  have l: "loans ?k (user_list s) = (if available (snd n) = 0 then 1 else 0)" by simp
  show ?thesis
  proof (cases "available (snd n) = 0")
    case True
    with l have "loans ?k (user_list s) = 1" by simp
    from loans_one_holder [OF this] True show ?thesis by (auto simp: holders_def)
  next
    case False
    with l have "loans ?k (user_list s) = 0" by simp
    with False show ?thesis by (simp add: holders_def loans_zero_iff)
  qed
qed

theorem availability_matches_holders_witness:
  "(10, \<lparr>isbn = ''c0'', title = ''U0'', author = ''A'', genre = ''G'', available = 0,
         borrow_count = 1\<rparr>) \<in> set (all_nodes demo_store) \<and>
   length (holders ''c0'' demo_store) = 1 \<and>
   (11, \<lparr>isbn = ''c1'', title = ''U1'', author = ''A'', genre = ''G'', available = 1,
         borrow_count = 0\<rparr>) \<in> set (all_nodes demo_store) \<and>
   holders ''c1'' demo_store = []"
  using availability_matches_holders [OF demo_store_def search_in_all_nodes [OF demo_c0]]
    availability_matches_holders [OF demo_store_def search_in_all_nodes [OF demo_c1]]
    search_in_all_nodes [OF demo_c0] search_in_all_nodes [OF demo_c1]
  by simp

text \<open>
  C2. \<open>issue_book\<close> checks for the user, then the book, then its availability, then the
  borrow limit, and the first check that fails decides the message; whenever the call
  fails, the whole store is as it was before the call.
\<close>

theorem issue_checks_before_writes:
  "(find_user i (user_list s) = None \<longrightarrow> issue_book i k s = (Some UserNotFound, s)) \<and>
   (\<forall>u. find_user i (user_list s) = Some u \<and> search_book_by_isbn k s = None
        \<longrightarrow> issue_book i k s = (Some BookNotFound, s)) \<and>
   (\<forall>u n. find_user i (user_list s) = Some u \<and> search_book_by_isbn k s = Some n \<and>
          available (snd n) = 0
        \<longrightarrow> issue_book i k s = (Some BookUnavailable, s)) \<and>
   (\<forall>u n. find_user i (user_list s) = Some u \<and> search_book_by_isbn k s = Some n \<and>
          available (snd n) \<noteq> 0 \<and> borrowed_count u \<ge> MAX_BORROWED
        \<longrightarrow> issue_book i k s = (Some BorrowLimitReached, s)) \<and>
   (\<forall>u n. find_user i (user_list s) = Some u \<and> search_book_by_isbn k s = Some n \<and>
          available (snd n) \<noteq> 0 \<and> borrowed_count u < MAX_BORROWED
        \<longrightarrow> fst (issue_book i k s) = None) \<and>
   (\<forall>e. fst (issue_book i k s) = Some e \<longrightarrow> snd (issue_book i k s) = s)"
  by (auto simp: issue_book_def split: option.splits)

theorem issue_checks_before_writes_witness:
  "issue_book 1000 ''c1'' demo_store = (Some UserNotFound, demo_store) \<and>
   issue_book 1001 ''zz'' demo_store = (Some BookNotFound, demo_store) \<and>
   issue_book 1001 ''c0'' demo_store = (Some BookUnavailable, demo_store) \<and>
   issue_book 1001 ''c1'' demo_store = (Some BorrowLimitReached, demo_store) \<and>
   fst (issue_book 1002 ''c1'' demo_store) = None"
  using issue_checks_before_writes [of 1000 demo_store "''c1''"]
    issue_checks_before_writes [of 1001 demo_store "''zz''"]
    issue_checks_before_writes [of 1001 demo_store "''c0''"]
    issue_checks_before_writes [of 1001 demo_store "''c1''"]
    issue_checks_before_writes [of 1002 demo_store "''c1''"]
  by (simp add: demo_users demo_c0 demo_c1 demo_zz MAX_BORROWED_def)

text \<open>
  C3, as claimed: the call fails with \<open>BorrowLimitReached\<close> exactly when the user holds
  ten books, whether or not the book is available. In the concrete run user 1001 holds
  ten books and book \<open>c0\<close> is present but lent out: the call fails with
  \<open>BookUnavailable\<close>, because availability is checked first.
\<close>

theorem issue_limit_regardless_of_availability_counterexample:
  "find_user 1001 (user_list demo_store) =
     Some \<lparr>user_id = 1001, name = ''ann'',
           borrowed_books = [''b0'', ''b1'', ''b2'', ''b3'', ''b4'', ''b5'', ''b6'', ''b7'',
                             ''b8'', ''b9''],
           borrowed_count = 10\<rparr> \<and>
   length (borrowed \<lparr>user_id = 1001, name = ''ann'',
           borrowed_books = [''b0'', ''b1'', ''b2'', ''b3'', ''b4'', ''b5'', ''b6'', ''b7'',
                             ''b8'', ''b9''],
           borrowed_count = 10\<rparr>) = 10 \<and>
   search_book_by_isbn ''c0'' demo_store \<noteq> None \<and>
   fst (issue_book 1001 ''c0'' demo_store) = Some BookUnavailable \<and>
   fst (issue_book 1001 ''c0'' demo_store) \<noteq> Some BorrowLimitReached"
  by (simp add: issue_book_def demo_users demo_c0 borrowed_def)

text \<open>
  C3, amended. In a reachable state, for an existing user and a book in the store, the
  call fails with \<open>BorrowLimitReached\<close> exactly when the book is available and the user's
  borrowed sequence has length 10; when the book is not available it fails with
  \<open>BookUnavailable\<close>, whatever the length.
\<close>

theorem issue_limit_reached_iff:
  assumes s: "s = run ops empty_store"
    and u: "find_user i (user_list s) = Some u"
    and n: "search_book_by_isbn k s = Some n"
  shows "(fst (issue_book i k s) = Some BorrowLimitReached \<longleftrightarrow>
            available (snd n) \<noteq> 0 \<and> length (borrowed u) = 10) \<and>
         (available (snd n) = 0 \<longrightarrow> fst (issue_book i k s) = Some BookUnavailable)"
proof -
  from s have inv: "store_inv s" by (simp add: store_inv_run)
  from find_user_Some [OF u] store_inv_user [OF inv] have ok: "user_ok u" by simp
  then have "length (borrowed u) = 10 \<longleftrightarrow> borrowed_count u \<ge> MAX_BORROWED"
    by (auto simp: user_ok_def borrowed_def MAX_BORROWED_def)
  with u n show ?thesis
    by (simp add: issue_book_def)
qed

theorem issue_limit_reached_iff_witness:
  "fst (issue_book 1001 ''c1'' demo_store) = Some BorrowLimitReached \<and>
   fst (issue_book 1002 ''c1'' demo_store) \<noteq> Some BorrowLimitReached \<and>
   fst (issue_book 1001 ''c0'' demo_store) = Some BookUnavailable"
proof -
  have ann: "find_user 1001 (user_list demo_store) =
     Some \<lparr>user_id = 1001, name = ''ann'',
           borrowed_books = [''b0'', ''b1'', ''b2'', ''b3'', ''b4'', ''b5'', ''b6'', ''b7'',
                             ''b8'', ''b9''],
           borrowed_count = 10\<rparr>"
    by (simp add: demo_users)
  have bob: "find_user 1002 (user_list demo_store) =
     Some \<lparr>user_id = 1002, name = ''bob'',
           borrowed_books = [''c0'', [], [], [], [], [], [], [], [], []],
           borrowed_count = 1\<rparr>"
    by (simp add: demo_users)
  from issue_limit_reached_iff [OF demo_store_def ann demo_c1]
    issue_limit_reached_iff [OF demo_store_def bob demo_c1]
    issue_limit_reached_iff [OF demo_store_def ann demo_c0]
  show ?thesis by (simp add: borrowed_def)
qed

text \<open>
  C4. In a reachable state, when the user's borrowed sequence contains the ISBN and the
  book is in the store, \<open>return_book\<close> succeeds; it removes the first occurrence of the
  ISBN and keeps the other entries in their order, it makes the book available and
  leaves its \<open>borrow_count\<close> as it was; and a second return right after it fails with
  \<open>NotBorrowedByUser\<close>.
\<close>

theorem return_removes_first_occurrence:
  assumes s: "s = run ops empty_store"
    and u: "find_user i (user_list s) = Some u"
    and k: "k \<in> set (borrowed u)"
    and n: "search_book_by_isbn k s = Some (p, b)"
  shows "\<exists>s' u' b' xs ys.
           return_book i k s = (None, s') \<and>
           borrowed u = xs @ k # ys \<and> k \<notin> set xs \<and>
           find_user i (user_list s') = Some u' \<and> borrowed u' = xs @ ys \<and>
           search_book_by_isbn k s' = Some (p, b') \<and>
           available b' = 1 \<and> borrow_count b' = borrow_count b \<and>
           fst (return_book i k s') = Some NotBorrowedByUser"
proof -
  from s have inv: "store_inv s" by (simp add: store_inv_run)
  from find_user_Some [OF u] store_inv_user [OF inv]
  have ok: "user_ok u" and uin: "u \<in> set (user_list s)" by simp_all
  let ?bs = "borrowed_books u" and ?c = "nat (borrowed_count u)"
  from ok have len: "?c \<le> length ?bs" by (auto simp: user_ok_def)
  from k find_borrowed_None_set [OF len, of k] obtain j
    where j: "find_borrowed ?bs ?c k 0 = Some j" by (auto simp: borrowed_def)
  let ?fu = "\<lambda>u. u\<lparr>borrowed_books := shift_left (borrowed_books u) (nat (borrowed_count u)) j,
                  borrowed_count := borrowed_count u - 1\<rparr>"
  let ?fb = "\<lambda>b. b\<lparr>available := 1\<rparr>"
  let ?s' = "s\<lparr>user_list := user_update i ?fu (user_list s),
               hash_table := (hash_table s)(hash_function k :=
                 chain_update k ?fb (hash_table s (hash_function k)))\<rparr>"
  from u n j have r: "return_book i k s = (None, ?s')"
    by (simp add: return_book_def)
  from borrowed_return [OF ok j] obtain xs ys
    where b: "borrowed u = xs @ k # ys" and xs: "k \<notin> set xs" and b': "borrowed (?fu u) = xs @ ys"
    by blast
  from u have u': "find_user i (user_list ?s') = Some (?fu u)"
    by (simp add: find_user_update)
  from n have n': "search_book_by_isbn k ?s' = Some (p, ?fb b)"
    by (simp add: search_book_by_isbn_def chain_search_update)
  from store_inv_loans [OF inv, of k] n have "loans k (user_list s) \<le> 1" by simp
  with loans_ge [OF uin, of k] b have "count_list ys k = 0" by simp
  with xs b' have notin: "k \<notin> set (borrowed (?fu u))" by (simp add: count_list_0_iff)
  from user_ok_return [OF ok j] have "user_ok (?fu u)" .
  then have "nat (borrowed_count (?fu u)) \<le> length (borrowed_books (?fu u))"
    by (auto simp: user_ok_def)
  from find_borrowed_None_conv [OF this, of k] notin
  have "find_borrowed (borrowed_books (?fu u)) (nat (borrowed_count (?fu u))) k 0 = None"
    by (simp add: borrowed_def)
  with u' n' have again: "fst (return_book i k ?s') = Some NotBorrowedByUser"
    by (simp add: return_book_def)
  show ?thesis
    apply (rule exI [of _ ?s'], rule exI [of _ "?fu u"], rule exI [of _ "?fb b"])
    apply (rule exI [of _ xs], rule exI [of _ ys])
    using r b xs u' b' n' again by simp
qed

theorem return_removes_first_occurrence_witness:
  "find_user 1001 (user_list demo_store) =
     Some \<lparr>user_id = 1001, name = ''ann'',
           borrowed_books = [''b0'', ''b1'', ''b2'', ''b3'', ''b4'', ''b5'', ''b6'', ''b7'',
                             ''b8'', ''b9''],
           borrowed_count = 10\<rparr> \<and>
   (\<exists>s' u' b' xs ys.
      return_book 1001 ''b3'' demo_store = (None, s') \<and>
      [''b0'', ''b1'', ''b2'', ''b3'', ''b4'', ''b5'', ''b6'', ''b7'', ''b8'', ''b9''] =
        xs @ ''b3'' # ys \<and> ''b3'' \<notin> set xs \<and>
      find_user 1001 (user_list s') = Some u' \<and> borrowed u' = xs @ ys \<and>
      search_book_by_isbn ''b3'' s' = Some (3, b') \<and>
      available b' = 1 \<and> borrow_count b' = 1 \<and>
      fst (return_book 1001 ''b3'' s') = Some NotBorrowedByUser)"
proof -
  have ann: "find_user 1001 (user_list demo_store) =
     Some \<lparr>user_id = 1001, name = ''ann'',
           borrowed_books = [''b0'', ''b1'', ''b2'', ''b3'', ''b4'', ''b5'', ''b6'', ''b7'',
                             ''b8'', ''b9''],
           borrowed_count = 10\<rparr>"
    by (simp add: demo_users)
  have held: "''b3'' \<in> set (borrowed \<lparr>user_id = 1001, name = ''ann'',
           borrowed_books = [''b0'', ''b1'', ''b2'', ''b3'', ''b4'', ''b5'', ''b6'', ''b7'',
                             ''b8'', ''b9''],
           borrowed_count = 10\<rparr>)"
    by (simp add: borrowed_def)
  from return_removes_first_occurrence [OF demo_store_def ann held demo_b3] ann
  show ?thesis by (simp add: borrowed_def)
qed

text \<open>
  C5. After adding a book and removing it again, the hash table is empty while the title
  tree still holds the address of the removed (and freed) record: \<open>remove_book\<close>
  announces the removal from the tree in a comment and does not do it.
\<close>

theorem remove_book_leaves_tree_entry:
  "all_nodes (run [AddBook (\<lambda>_. []) 0 ''111'' ''Go'' ''A'' ''Tech'', RemoveBook ''111'']
                empty_store) = [] \<and>
   title_bst_root (run [AddBook (\<lambda>_. []) 0 ''111'' ''Go'' ''A'' ''Tech'', RemoveBook ''111'']
                     empty_store) = Node Leaf 0 Leaf"
  by code_simp

text \<open>
  C6. Inserting a book whose ISBN is that of a book already in the store reports the
  duplicate and changes nothing: the state is the one before the call, so the number of
  stored books and the record found under that ISBN, with all its fields, are as
  before. This holds in every store when the book is found by the lookup, and in every
  reachable store when the book is anywhere in the table.
\<close>

theorem insert_duplicate_noop:
  "(search_book_by_isbn (isbn b) s = Some n \<longrightarrow>
      insert_book stale p b s = (Some DuplicateIsbn, s) \<and>
      length (all_nodes (snd (insert_book stale p b s))) = length (all_nodes s) \<and>
      search_book_by_isbn (isbn b) (snd (insert_book stale p b s)) = Some n) \<and>
   (s = run ops empty_store \<and> m \<in> set (all_nodes s) \<and> isbn (snd m) = isbn b \<longrightarrow>
      insert_book stale p b s = (Some DuplicateIsbn, s))"
proof (rule conjI)
  show "search_book_by_isbn (isbn b) s = Some n \<longrightarrow>
      insert_book stale p b s = (Some DuplicateIsbn, s) \<and>
      length (all_nodes (snd (insert_book stale p b s))) = length (all_nodes s) \<and>
      search_book_by_isbn (isbn b) (snd (insert_book stale p b s)) = Some n"
    by (simp add: insert_book_def search_book_by_isbn_def)
next
  show "s = run ops empty_store \<and> m \<in> set (all_nodes s) \<and> isbn (snd m) = isbn b \<longrightarrow>
      insert_book stale p b s = (Some DuplicateIsbn, s)"
  proof
    assume a: "s = run ops empty_store \<and> m \<in> set (all_nodes s) \<and> isbn (snd m) = isbn b"
    then have s: "s = run ops empty_store" and m: "m \<in> set (all_nodes s)"
      and k: "isbn (snd m) = isbn b" by blast+
    from s have inv: "store_inv s" by (simp add: store_inv_run)
    from store_inv_search_node [OF inv m] k
    have "search_book_by_isbn (isbn b) s = Some m" by simp
    then show "insert_book stale p b s = (Some DuplicateIsbn, s)"
      by (simp add: insert_book_def search_book_by_isbn_def)
  qed
qed

theorem insert_duplicate_noop_witness:
  "search_book_by_isbn ''c0'' demo_store =
     Some (10, \<lparr>isbn = ''c0'', title = ''U0'', author = ''A'', genre = ''G'', available = 0,
                borrow_count = 1\<rparr>) \<and>
   (10, \<lparr>isbn = ''c0'', title = ''U0'', author = ''A'', genre = ''G'', available = 0,
         borrow_count = 1\<rparr>) \<in> set (all_nodes demo_store) \<and>
   insert_book (\<lambda>_. []) 77
     \<lparr>isbn = ''c0'', title = ''Other'', author = ''B'', genre = ''H'', available = 1,
      borrow_count = 0\<rparr> demo_store = (Some DuplicateIsbn, demo_store)"
  using insert_duplicate_noop [of "\<lparr>isbn = ''c0'', title = ''Other'', author = ''B'',
      genre = ''H'', available = 1, borrow_count = 0\<rparr>" demo_store
      "(10, \<lparr>isbn = ''c0'', title = ''U0'', author = ''A'', genre = ''G'', available = 0,
         borrow_count = 1\<rparr>)" "\<lambda>_. []" 77 demo_ops
      "(10, \<lparr>isbn = ''c0'', title = ''U0'', author = ''A'', genre = ''G'', available = 0,
         borrow_count = 1\<rparr>)"]
    search_in_all_nodes [OF demo_c0] demo_store_def
  by (simp add: demo_c0)

text \<open>
  C10. A successful issue or return changes one user record, the one \<open>find_user\<close>
  resolves, and there at most the borrowed array and its count; it changes one book
  record, the one \<open>search_book_by_isbn\<close> resolves, and there at most \<open>available\<close> and
  \<open>borrow_count\<close>. Every other user and book record, the nodes of every chain and their
  order, the title tree and \<open>next_user_id\<close> are as before.
\<close>

theorem issue_return_frame:
  assumes r: "r = issue_book i k s \<or> r = return_book i k s" and ok: "fst r = None"
  shows "\<exists>us1 u u' us2 ns1 p b b' ns2.
           find_user i (user_list s) = Some u \<and>
           user_list s = us1 @ u # us2 \<and> user_list (snd r) = us1 @ u' # us2 \<and>
           user_id u' = user_id u \<and> name u' = name u \<and>
           search_book_by_isbn k s = Some (p, b) \<and>
           hash_table s (hash_function k) = ns1 @ (p, b) # ns2 \<and>
           hash_table (snd r) (hash_function k) = ns1 @ (p, b') # ns2 \<and>
           isbn b' = isbn b \<and> title b' = title b \<and> author b' = author b \<and> genre b' = genre b \<and>
           (\<forall>j. j \<noteq> hash_function k \<longrightarrow> hash_table (snd r) j = hash_table s j) \<and>
           title_bst_root (snd r) = title_bst_root s \<and>
           next_user_id (snd r) = next_user_id s"
proof -
  from r ok obtain u where u: "find_user i (user_list s) = Some u"
    by (auto simp: issue_book_def return_book_def split: option.splits)
  from r ok u obtain n where n: "search_book_by_isbn k s = Some n"
    by (auto simp: issue_book_def return_book_def split: option.splits)
  obtain p b where pb: "n = (p, b)" by (cases n)
  from r ok u n obtain fu fb where
    s': "snd r = s\<lparr>user_list := user_update i fu (user_list s),
                   hash_table := (hash_table s)(hash_function k :=
                      chain_update k fb (hash_table s (hash_function k)))\<rparr>"
    and fu: "user_id (fu u) = user_id u" "name (fu u) = name u"
    and fb: "isbn (fb b) = isbn b" "title (fb b) = title b" "author (fb b) = author b"
            "genre (fb b) = genre b"
    by (auto simp: issue_book_def return_book_def split: option.splits if_splits)
  from find_user_split [OF u, of fu] obtain us1 us2 where
    us: "user_list s = us1 @ u # us2" "user_update i fu (user_list s) = us1 @ fu u # us2"
    by blast
  from n have "chain_search k (hash_table s (hash_function k)) = Some n"
    by (simp add: search_book_by_isbn_def)
  from chain_search_split [OF this, of fb] pb obtain ns1 ns2 where
    ns: "hash_table s (hash_function k) = ns1 @ (p, b) # ns2"
        "chain_update k fb (hash_table s (hash_function k)) = ns1 @ (p, fb b) # ns2"
    by auto
  show ?thesis
    apply (rule exI [of _ us1], rule exI [of _ u], rule exI [of _ "fu u"], rule exI [of _ us2])
    apply (rule exI [of _ ns1], rule exI [of _ p], rule exI [of _ b], rule exI [of _ "fb b"])
    apply (rule exI [of _ ns2])
    using u n pb us ns fu fb by (simp add: s')
qed

theorem issue_return_frame_witness:
  "fst (issue_book 1002 ''c1'' demo_store) = None \<and>
   fst (return_book 1002 ''c0'' demo_store) = None \<and>
   title_bst_root (snd (issue_book 1002 ''c1'' demo_store)) = title_bst_root demo_store \<and>
   next_user_id (snd (issue_book 1002 ''c1'' demo_store)) = next_user_id demo_store \<and>
   title_bst_root (snd (return_book 1002 ''c0'' demo_store)) = title_bst_root demo_store \<and>
   next_user_id (snd (return_book 1002 ''c0'' demo_store)) = next_user_id demo_store"
proof -
  have i: "fst (issue_book 1002 ''c1'' demo_store) = None"
    by (simp add: issue_book_def demo_users demo_c1 MAX_BORROWED_def)
  have "find_borrowed [''c0'', [], [], [], [], [], [], [], [], []] (Suc 0) ''c0'' 0 = Some 0"
    by (simp add: find_borrowed.simps)
  then have t: "fst (return_book 1002 ''c0'' demo_store) = None"
    by (simp add: return_book_def demo_users demo_c0)
  from issue_return_frame [of "issue_book 1002 ''c1'' demo_store" 1002 "''c1''" demo_store] i
    issue_return_frame [of "return_book 1002 ''c0'' demo_store" 1002 "''c0''" demo_store] t
  show ?thesis by auto
qed

section \<open>Claims about persistence and reports\<close>

text \<open>
  C7, as claimed: for every store, saving both files and loading them into an empty
  store gives back the same books. A book whose title holds the delimiter is saved as a
  line with seven fields; the loader takes the first six, so the book that comes back
  has another title, author, genre, availability and borrow count.
\<close>

theorem round_trip_delimiter_in_title_counterexample:
  "map snd (all_nodes pipe_store) =
     [\<lparr>isbn = ''111'', title = ''A|B'', author = ''X'', genre = ''Tech'', available = 1,
       borrow_count = 0\<rparr>] \<and>
   map snd (all_nodes
      (load_users_from_file (Some (save_users_to_file pipe_store))
         (load_books_from_file (\<lambda>_. []) (\<lambda>n. n) (Some (save_books_to_file pipe_store))
            empty_store))) =
     [\<lparr>isbn = ''111'', title = ''A'', author = ''B'', genre = ''X'', available = 0,
       borrow_count = 1\<rparr>] \<and>
   snd ` set (all_nodes
      (load_users_from_file (Some (save_users_to_file pipe_store))
         (load_books_from_file (\<lambda>_. []) (\<lambda>n. n) (Some (save_books_to_file pipe_store))
            empty_store))) \<noteq>
   snd ` set (all_nodes pipe_store)"
proof -
  have "all_nodes (load_users_from_file (Some (save_users_to_file pipe_store))
         (load_books_from_file (\<lambda>_. []) (\<lambda>n. n) (Some (save_books_to_file pipe_store))
            empty_store)) =
        all_nodes (load_books_from_file (\<lambda>_. []) (\<lambda>n. n) (Some (save_books_to_file pipe_store))
            empty_store)"
    by (simp add: all_nodes_def load_users_nodes)
  moreover have "snd ` set ns = set (map snd ns)" for ns :: chain by simp
  ultimately show ?thesis
    by (simp only: pipe_eval pipe_nodes) simp
qed

text \<open>
  C7, amended. For every store in which each string (ISBN, title, author, genre, user
  name, borrowed ISBN) is non-empty, fits its buffer and holds neither the delimiter
  nor a newline, each number is a C \<^verbatim>\<open>int\<close> and each user record has its count within
  the array, saving the books file and the users file and loading both into the empty
  store yields the same set of book tuples and the same set of user tuples, for every
  choice of addresses.
\<close>

theorem save_load_round_trip:
  assumes "store_ok s"
  shows "snd ` set (all_nodes
           (load_users_from_file (Some (save_users_to_file s))
              (load_books_from_file stale alloc (Some (save_books_to_file s)) empty_store))) =
         snd ` set (all_nodes s) \<and>
         set (map user_tuple (user_list
           (load_users_from_file (Some (save_users_to_file s))
              (load_books_from_file stale alloc (Some (save_books_to_file s)) empty_store)))) =
         set (map user_tuple (user_list s))"
proof -
  from assms have b: "list_all (\<lambda>n. book_ok (snd n)) (all_nodes s)"
    and u: "list_all saved_user_ok (user_list s)" by (simp_all add: store_ok_def)
  let ?s1 = "load_books_from_file stale alloc (Some (save_books_to_file s)) empty_store"
  have "all_nodes (load_users_from_file (Some (save_users_to_file s)) ?s1) = all_nodes ?s1"
    by (simp add: all_nodes_def load_users_nodes)
  with books_round_trip [OF b, of stale alloc] users_round_trip [OF u, of ?s1]
  show ?thesis by simp
qed

theorem save_load_round_trip_witness:
  "store_ok persist_store \<and>
   snd ` set (all_nodes
      (load_users_from_file (Some (save_users_to_file persist_store))
         (load_books_from_file (\<lambda>_. []) (\<lambda>n. n) (Some (save_books_to_file persist_store))
            empty_store))) =
     snd ` set (all_nodes persist_store) \<and>
   set (map user_tuple (user_list
      (load_users_from_file (Some (save_users_to_file persist_store))
         (load_books_from_file (\<lambda>_. []) (\<lambda>n. n) (Some (save_books_to_file persist_store))
            empty_store)))) =
     set (map user_tuple (user_list persist_store))"
  using save_load_round_trip [OF persist_ok, of "\<lambda>_. []" "\<lambda>n. n"] persist_ok
  by simp

text \<open>
  C8, as claimed: after a reload the users are listed oldest first. Two users are added,
  1001 and then 1002; after saving and reloading the list still starts with 1002, the
  user added last.
\<close>

theorem reload_oldest_first_counterexample:
  "map user_id (user_list persist_store) = [1002, 1001] \<and>
   map user_id (user_list (load_users_from_file (Some (save_users_to_file persist_store))
      empty_store)) = [1002, 1001] \<and>
   map user_id (user_list (load_users_from_file (Some (save_users_to_file persist_store))
      empty_store)) \<noteq> [1001, 1002]"
  by (simp add: persist_users_eval persist_users)

text \<open>
  C8, amended. In every reachable state the users are listed most recently added first:
  the ids, which are handed out in increasing order, decrease along the list and are
  below the next id, and a new user goes to the front. A save followed by a reload keeps
  that order, provided the user records can be carried by the file format: the loader's
  final reversal undoes the reversal of its reading loop.
\<close>

theorem user_order_newest_first:
  assumes "s = run ops empty_store" and "list_all saved_user_ok (user_list s)"
  shows "sorted_wrt (\<lambda>a b. a > b) (map user_id (user_list s)) \<and>
         list_all (\<lambda>u. user_id u < next_user_id s) (user_list s) \<and>
         hd (user_list (add_user nm s)) =
           \<lparr>user_id = next_user_id s, name = nm,
            borrowed_books = replicate (nat MAX_BORROWED) [], borrowed_count = 0\<rparr> \<and>
         map user_tuple (user_list (load_users_from_file (Some (save_users_to_file s)) s0)) =
           map user_tuple (user_list s)"
  using assms ids_inv_run [of ops] users_round_trip [of s s0]
  by (simp add: ids_inv_def add_user_def)

theorem user_order_newest_first_witness:
  "list_all saved_user_ok (user_list persist_store) \<and>
   sorted_wrt (\<lambda>a b. a > b) (map user_id (user_list persist_store)) \<and>
   map user_id (user_list persist_store) = [1002, 1001] \<and>
   map user_tuple (user_list
      (load_users_from_file (Some (save_users_to_file persist_store)) empty_store)) =
     map user_tuple (user_list persist_store)"
proof -
  from persist_ok have ok: "list_all saved_user_ok (user_list persist_store)"
    by (simp add: store_ok_def)
  from user_order_newest_first [OF persist_store_def ok, of "''eve''" empty_store] ok
  show ?thesis by (simp add: persist_users)
qed

text \<open>
  C9. For every store the report of the most borrowed books prints at most ten books,
  each with a positive \<open>borrow_count\<close>, in an order in which \<open>borrow_count\<close> never
  increases.
\<close>

theorem most_borrowed_report:
  "length (list_most_borrowed_books s) \<le> 10 \<and>
   (\<forall>n \<in> set (list_most_borrowed_books s). borrow_count (snd n) > 0) \<and>
   sorted_wrt (\<lambda>a b. borrow_count (snd a) \<ge> borrow_count (snd b)) (list_most_borrowed_books s)"
proof (cases "collect_books s = []")
  case True
  then show ?thesis by (simp add: list_most_borrowed_books_def)
next
  case False
  let ?sorted = "bubble_outer (collect_books s) (length (collect_books s)) 0"
  let ?lim = "if length (collect_books s) < 10 then length (collect_books s) else 10"
  from False have out: "list_most_borrowed_books s =
      filter (\<lambda>n. borrow_count (snd n) > 0) (take ?lim ?sorted)"
    by (simp add: list_most_borrowed_books_def Let_def)
  have "length (filter (\<lambda>n. borrow_count (snd n) > 0) (take ?lim ?sorted)) \<le> length (take ?lim ?sorted)"
    by (rule length_filter_le)
  also have "\<dots> \<le> 10" by (simp add: min_def)
  finally have l: "length (list_most_borrowed_books s) \<le> 10" using out by simp
  from bubble_outer_sorted_0 [OF False]
  have "sorted_wrt (\<lambda>a b. borrow_count (snd a) \<ge> borrow_count (snd b)) (take ?lim ?sorted)"
    by (rule sorted_wrt_take)
  then have "sorted_wrt (\<lambda>a b. borrow_count (snd a) \<ge> borrow_count (snd b))
      (filter (\<lambda>n. borrow_count (snd n) > 0) (take ?lim ?sorted))"
    by (rule sorted_wrt_filter)
  with l out show ?thesis by simp
qed

theorem most_borrowed_report_witness:
  "map (\<lambda>n. (isbn (snd n), borrow_count (snd n))) (list_most_borrowed_books report_store) =
     [(''y'', 2), (''z'', 1)] \<and>
   length (list_most_borrowed_books report_store) \<le> 10 \<and>
   sorted_wrt (\<lambda>a b. borrow_count (snd a) \<ge> borrow_count (snd b))
     (list_most_borrowed_books report_store)"
proof -
  note t = most_borrowed_report [of report_store]
  have "map (\<lambda>n. (isbn (snd n), borrow_count (snd n))) (list_most_borrowed_books report_store) =
     [(''y'', 2), (''z'', 1)]"
    by (simp add: report_eval)
  with t [THEN conjunct1] t [THEN conjunct2, THEN conjunct2] show ?thesis
    by (intro conjI)
qed

end
